theory Spec2Isabelle
  imports Complex_Main
begin

text \<open>
  A model of \<open>py_uci.py\<close>, the UCI protocol shell around a pluggable search function:
  the session state of \<open>UCIEngine\<close>, its command handlers, the dispatch loop of \<open>run\<close>
  and the search worker, together with the threads they start and join. The chess library
  and the search function are parameters of the model. The handlers are functions on the
  session state; the dispatcher and the workers are combined into one machine whose steps
  are the events of a run (\<open>step\<close>, \<open>run\<close>).
\<close>

section \<open>Text helpers\<close>

text \<open>
  Python strings are modelled as \<open>string\<close>, one \<open>char\<close> per code point below 256.
  \<open>is_space\<close> lists the code points below 256 for which Python's \<open>str.isspace\<close> holds;
  \<open>str.strip()\<close> and \<open>str.split()\<close> (both without argument) cut at exactly these.
\<close>

definition is_space :: "char \<Rightarrow> bool" where
  "is_space c = (c \<in> {CHR 0x09, CHR 0x0A, CHR 0x0B, CHR 0x0C, CHR 0x0D,
                       CHR 0x1C, CHR 0x1D, CHR 0x1E, CHR 0x1F, CHR 0x20, CHR 0x85, CHR 0xA0})"

definition strip :: "string \<Rightarrow> string" where
  "strip s = rev (dropWhile is_space (rev (dropWhile is_space s)))"

fun split_acc :: "string \<Rightarrow> string \<Rightarrow> string list" where
  "split_acc cur [] = (if cur = [] then [] else [rev cur])"
| "split_acc cur (c # cs) =
     (if is_space c then (if cur = [] then split_acc [] cs else rev cur # split_acc [] cs)
      else split_acc (c # cur) cs)"

definition split_ws :: "string \<Rightarrow> string list" where
  "split_ws s = split_acc [] s"

text \<open>\<open>sep.join(xs)\<close>.\<close>

fun join_with :: "string \<Rightarrow> string list \<Rightarrow> string" where
  "join_with sep [] = []"
| "join_with sep [x] = x"
| "join_with sep (x # y # ys) = x @ sep @ join_with sep (y # ys)"

text \<open>\<open>str(n)\<close> for a Python int.\<close>

fun show_nat :: "nat \<Rightarrow> string" where
  "show_nat n = (if n < 10 then [''0123456789'' ! n]
                 else show_nat (n div 10) @ [''0123456789'' ! (n mod 10)])"

declare show_nat.simps [simp del]

definition show_int :: "int \<Rightarrow> string" where
  "show_int i = (if i < 0 then ''-'' @ show_nat (nat (- i)) else show_nat (nat i))"

text \<open>
  \<open>int(s)\<close> on a string: optional surrounding whitespace, an optional sign, then decimal
  digits with single underscores allowed between digits. \<open>None\<close> stands for the
  \<open>ValueError\<close>. (Digits outside ASCII and the interpreter's cap on the number of digits
  are outside the model.)
\<close>

definition is_digit :: "char \<Rightarrow> bool" where
  "is_digit c = (c \<in> set ''0123456789'')"

definition digit_val :: "char \<Rightarrow> nat" where
  "digit_val c = of_char c - 48"

fun int_body :: "bool \<Rightarrow> nat \<Rightarrow> string \<Rightarrow> nat option" where
  "int_body d acc [] = (if d then Some acc else None)"
| "int_body d acc (c # cs) =
     (if is_digit c then int_body True (acc * 10 + digit_val c) cs
      else if c = CHR ''_'' \<and> d \<and> cs \<noteq> [] \<and> is_digit (hd cs) then int_body False acc cs
      else None)"

definition py_int :: "string \<Rightarrow> int option" where
  "py_int s =
     (case strip s of
        [] \<Rightarrow> None
      | c # cs \<Rightarrow>
          if c = CHR ''-'' then map_option (\<lambda>n. - int n) (int_body False 0 cs)
          else if c = CHR ''+'' then map_option int (int_body False 0 cs)
          else map_option int (int_body False 0 (c # cs)))"

text \<open>
  A Python \<open>dict\<close> keeps insertion order; assigning to a key that is present keeps its
  place, a new key goes to the end.
\<close>

fun dict_set :: "'k \<Rightarrow> 'v \<Rightarrow> ('k \<times> 'v) list \<Rightarrow> ('k \<times> 'v) list" where
  "dict_set k v [] = [(k, v)]"
| "dict_set k v (p # ps) = (if fst p = k then (k, v) # ps else p # dict_set k v ps)"

definition dict_get :: "('k \<times> 'v) list \<Rightarrow> 'k \<Rightarrow> 'v option" where
  "dict_get d k = map_of d k"

section \<open>Python values seen by the engine\<close>

text \<open>
  What a Strategy returns, and what it puts into an info event, is \<open>Any\<close> in the source.
  The engine only ever asks such a value whether it is \<open>None\<close>, a \<open>chess.Move\<close> (then for
  its \<open>uci()\<close> text), a tuple or a list (then for its elements), and otherwise for its
  \<open>str()\<close>. \<open>PObj s r\<close> is any other object, given by its \<open>str()\<close> text \<open>s\<close> and its
  \<open>repr()\<close> text \<open>r\<close>: the Python string \<open>"e2e4"\<close> is \<open>PObj ''e2e4''\<close> with the quoted text
  as its repr, the empty string is \<open>PObj []\<close> with two quotes as its repr.
\<close>

datatype pyval =
    PNone
  | PMove string
  | PTuple "pyval list"
  | PList "pyval list"
  | PObj string string

fun py_repr :: "pyval \<Rightarrow> string" where
  "py_repr PNone = ''None''"
| "py_repr (PMove u) = ''Move.from_uci('' @ [CHR 0x27] @ u @ [CHR 0x27] @ '')''"
| "py_repr (PTuple []) = ''()''"
| "py_repr (PTuple [x]) = ''('' @ py_repr x @ '',)''"
| "py_repr (PTuple (x # y # zs)) = ''('' @ join_with '', '' (map py_repr (x # y # zs)) @ '')''"
| "py_repr (PList xs) = ''['' @ join_with '', '' (map py_repr xs) @ '']''"
| "py_repr (PObj s r) = r"

fun py_str :: "pyval \<Rightarrow> string" where
  "py_str (PMove u) = u"
| "py_str (PObj s r) = s"
| "py_str v = py_repr v"

datatype error = ValueError | TypeError | OverflowError | IndexError | NotImplementedError

section \<open>The Rules Provider\<close>

text \<open>
  The chess library is an external collaborator; the engine uses it through the
  operations below, and every theorem holds for any provider. \<open>'p\<close> is a position
  (what \<open>chess.Board\<close> holds, without its move stack, so \<open>board.copy(stack=False)\<close> is the
  same position), \<open>'m\<close> a move.
  \<^item> \<open>initial\<close>: \<open>chess.Board()\<close>, also what \<open>board.reset()\<close> restores;
  \<^item> \<open>from_fen\<close>: \<open>chess.Board(fen)\<close>, \<open>None\<close> for its \<open>ValueError\<close>;
  \<^item> \<open>turn\<close>: \<open>board.turn\<close>, \<open>True\<close> for \<open>chess.WHITE\<close>;
  \<^item> \<open>legal_moves\<close>: \<open>board.legal_moves\<close> in iteration order;
  \<^item> \<open>push\<close>: \<open>board.push(move)\<close>; on a move that is not pseudo-legal the library may
    raise after it has begun to change the board, which \<open>PushRaised\<close> records together
    with the board left behind;
  \<^item> \<open>from_uci\<close>: \<open>chess.Move.from_uci\<close>, \<open>None\<close> for its \<open>ValueError\<close>;
  \<^item> \<open>uci\<close>: \<open>move.uci()\<close>.
\<close>

datatype 'p pushed = Pushed 'p | PushRaised 'p

record ('p, 'm) rules =
  initial :: 'p
  from_fen :: "string \<Rightarrow> 'p option"
  turn :: "'p \<Rightarrow> bool"
  legal_moves :: "'p \<Rightarrow> 'm list"
  push :: "'p \<Rightarrow> 'm \<Rightarrow> 'p pushed"
  from_uci :: "string \<Rightarrow> 'm option"
  uci :: "'m \<Rightarrow> string"

section \<open>Session state\<close>

text \<open>Option records: \<open>self.options[name]\<close> is a dict with the optional keys
  \<open>type\<close>, \<open>default\<close>, \<open>min\<close>, \<open>max\<close>, \<open>var\<close>. A field is \<open>None\<close> when the key is absent;
  \<open>OptNone\<close> is the Python value \<open>None\<close> stored under a key that is present.\<close>

datatype optval = OptNone | OptStr string | OptInt int | OptBool bool

fun opt_str :: "optval \<Rightarrow> string" where
  "opt_str OptNone = ''None''"
| "opt_str (OptStr s) = s"
| "opt_str (OptInt i) = show_int i"
| "opt_str (OptBool b) = (if b then ''True'' else ''False'')"

record optinfo =
  o_type :: "optval option"
  o_default :: "optval option"
  o_min :: "optval option"
  o_max :: "optval option"
  o_var :: "optval list option"

text \<open>Search limits: the dict \<open>_parse_go\<close> builds. \<open>LSeconds ms\<close> is the float the
  source computes as \<open>ms / 1000.0\<close>, kept symbolically.\<close>

datatype limval = LInt int | LStr string | LTrue | LSeconds int

type_synonym limits = "(string \<times> limval) list"

text \<open>
  The Strategy is a Python callable handed to the constructor. Of the callable itself the
  engine's behaviour depends only on how many positional arguments it accepts:
  \<open>External lo hi\<close> accepts between \<open>lo\<close> and \<open>hi\<close>; \<open>DefaultSearch\<close> is
  \<open>_default_search_fn\<close>, which raises \<open>NotImplementedError\<close>. What a running Strategy does
  (calls of the info callback, its result) arrives as events, see below.
\<close>

datatype strategy = DefaultSearch | External nat nat

datatype 'p arg = ArgBoard 'p | ArgLimits limits | ArgStopEvent | ArgInfoCallback

text \<open>
  A worker thread is \<open>Created\<close> by \<open>Thread(...).start()\<close>, is \<open>Running\<close> once it has
  called the Strategy (with the arguments recorded), and is \<open>Finished\<close> when
  \<open>_search_worker\<close> has returned. Threads are numbered in the order they are spawned.
\<close>

datatype 'p wstate = Created limits | Running "'p arg list" | Finished

text \<open>
  The dispatcher thread is either between two lines (\<open>Idle\<close>), blocked in
  \<open>th.join(timeout=5.0)\<close> on thread \<open>th\<close> with the rest of the handler still to run
  (\<open>Joining th k\<close>), or has left \<open>run\<close> (\<open>Stopped\<close>).
\<close>

datatype cont = KStart limits | KStop | KNewgame | KQuit | KEof

datatype dstate = Idle | Joining nat cont | Stopped

text \<open>Who wrote a line: bookkeeping of the model, not visible on stdout.\<close>

datatype src = Dispatcher | Worker nat

text \<open>
  The fields up to \<open>last_info_time\<close> are the attributes of \<open>UCIEngine\<close> (\<open>ponder_move\<close>,
  which the engine itself never assigns, holds the text of the move when a Strategy has
  set it). Below them is the
  environment: the threads spawned so far, the dispatcher's control state, the lines
  written to stdout, the strings passed to the logger, and the number of tracebacks
  printed to stderr. Time is the value of \<open>time.time()\<close> as an exact rational number of
  seconds.
\<close>

record 'p engine =
  name :: string
  author :: string
  search_fn :: strategy
  board :: 'p
  options :: "(string \<times> optinfo) list"
  search_thread :: "nat option"
  stop_event :: bool
  ponder :: bool
  ponder_move :: "string option"
  last_info_time :: rat
  threads :: "'p wstate list"
  disp :: dstate
  out :: "(src \<times> string) list"
  logged :: "string list"
  tracebacks :: nat

definition init :: "('p, 'm) rules \<Rightarrow> string \<Rightarrow> string \<Rightarrow> strategy \<Rightarrow> 'p engine" where
  "init r nm au fn =
     \<lparr> name = nm, author = au, search_fn = fn, board = initial r, options = [],
       search_thread = None, stop_event = False, ponder = False, ponder_move = None,
       last_info_time = 0, threads = [], disp = Idle, out = [], logged = [],
       tracebacks = 0 \<rparr>"

section \<open>Output\<close>

definition send :: "src \<Rightarrow> string \<Rightarrow> 'p engine \<Rightarrow> 'p engine" where
  "send who line s = s\<lparr> out := out s @ [(who, line)], logged := logged s @ [''-> '' @ line] \<rparr>"

definition logger :: "string \<Rightarrow> 'p engine \<Rightarrow> 'p engine" where
  "logger msg s = s\<lparr> logged := logged s @ [msg] \<rparr>"

text \<open>
  An info event: the seven keys \<open>_send_info\<close> looks at. \<open>score\<close> is either a dict (with
  its optional \<open>cp\<close> and \<open>mate\<close> entries) or another value. For \<open>time\<close> the model
  keeps what \<open>int(info["time"] * 1000)\<close> evaluates to, or that it raises.
\<close>

datatype score = ScoreDict "pyval option" "pyval option" | ScoreVal pyval

datatype millis = MsRaises | Ms int

record info =
  i_depth :: "pyval option"
  i_seldepth :: "pyval option"
  i_score :: "score option"
  i_nodes :: "pyval option"
  i_nps :: "pyval option"
  i_pv :: "pyval option"
  i_time :: "millis option"

definition key_part :: "string \<Rightarrow> pyval option \<Rightarrow> string list" where
  "key_part k v = (case v of None \<Rightarrow> [] | Some x \<Rightarrow> [k, py_str x])"

definition score_part :: "score option \<Rightarrow> string list" where
  "score_part sc =
     (case sc of
        None \<Rightarrow> []
      | Some (ScoreDict (Some cp) _) \<Rightarrow> [''score'', ''cp'', py_str cp]
      | Some (ScoreDict None (Some mate)) \<Rightarrow> [''score'', ''mate'', py_str mate]
      | Some (ScoreDict None None) \<Rightarrow> []
      | Some (ScoreVal v) \<Rightarrow> [''score'', py_str v])"

definition pv_part :: "pyval option \<Rightarrow> string list" where
  "pv_part pv =
     (case pv of
        None \<Rightarrow> []
      | Some (PTuple ms) \<Rightarrow> [''pv'', join_with '' '' (map py_str ms)]
      | Some (PList ms) \<Rightarrow> [''pv'', join_with '' '' (map py_str ms)]
      | Some v \<Rightarrow> [''pv'', py_str v])"

definition info_line :: "info \<Rightarrow> error + string" where
  "info_line i =
     (let parts = [''info''] @ key_part ''depth'' (i_depth i) @ key_part ''seldepth'' (i_seldepth i)
                  @ score_part (i_score i) @ key_part ''nodes'' (i_nodes i)
                  @ key_part ''nps'' (i_nps i) @ pv_part (i_pv i)
      in case i_time i of
           None \<Rightarrow> Inr (join_with '' '' parts)
         | Some MsRaises \<Rightarrow> Inl TypeError
         | Some (Ms n) \<Rightarrow> Inr (join_with '' '' (parts @ [''time'', show_int n])))"

definition send_info :: "src \<Rightarrow> info \<Rightarrow> 'p engine \<Rightarrow> error + 'p engine" where
  "send_info who i s = (case info_line i of Inl e \<Rightarrow> Inl e | Inr l \<Rightarrow> Inr (send who l s))"

section \<open>Handshake and options\<close>

definition option_line :: "string \<times> optinfo \<Rightarrow> string" where
  "option_line p =
     ''option name '' @ fst p @ '' type ''
       @ (case o_type (snd p) of None \<Rightarrow> ''spin'' | Some v \<Rightarrow> opt_str v)
       @ (case o_default (snd p) of None \<Rightarrow> [] | Some v \<Rightarrow> '' default '' @ opt_str v)
       @ (case o_min (snd p) of None \<Rightarrow> [] | Some v \<Rightarrow> '' min '' @ opt_str v)
       @ (case o_max (snd p) of None \<Rightarrow> [] | Some v \<Rightarrow> '' max '' @ opt_str v)
       @ (case o_var (snd p) of None \<Rightarrow> [] | Some vs \<Rightarrow> concat (map (\<lambda>v. '' var '' @ opt_str v) vs))"

definition cmd_uci :: "'p engine \<Rightarrow> 'p engine" where
  "cmd_uci s =
     send Dispatcher ''uciok''
       (foldl (\<lambda>s' p. send Dispatcher (option_line p) s')
          (send Dispatcher (''id author '' @ author s) (send Dispatcher (''id name '' @ name s) s))
          (options s))"

definition cmd_isready :: "'p engine \<Rightarrow> 'p engine" where
  "cmd_isready s = send Dispatcher ''readyok'' s"

text \<open>
  The token scan of \<open>_cmd_setoption\<close>: the second argument is the name found so far, the
  result is the pair of \<open>name\<close> and \<open>value\<close> when the loop ends.
\<close>

function setoption_scan :: "string list \<Rightarrow> string option \<Rightarrow> string option \<times> string option" where
  "setoption_scan [] nm = (nm, None)"
| "setoption_scan (t # ts) nm =
     (if t = ''name'' then
        setoption_scan (dropWhile (\<lambda>x. x \<noteq> ''value'') ts)
          (Some (join_with '' '' (takeWhile (\<lambda>x. x \<noteq> ''value'') ts)))
      else if t = ''value'' then (nm, Some (join_with '' '' ts))
      else setoption_scan ts nm)"
  by pat_completeness auto
termination
  by (relation "measure (\<lambda>(ts, nm). length ts)") (auto simp: less_Suc_eq_le length_dropWhile_le)

definition string_option :: "string option \<Rightarrow> optinfo" where
  "string_option v =
     \<lparr> o_type = Some (OptStr ''string''),
       o_default = Some (case v of None \<Rightarrow> OptNone | Some x \<Rightarrow> OptStr x),
       o_min = None, o_max = None, o_var = None \<rparr>"

definition set_option :: "string \<Rightarrow> string option \<Rightarrow> 'p engine \<Rightarrow> 'p engine" where
  "set_option nm v s = s\<lparr> options := dict_set nm (string_option v) (options s) \<rparr>"

definition cmd_setoption :: "string list \<Rightarrow> 'p engine \<Rightarrow> 'p engine" where
  "cmd_setoption tokens s =
     (case setoption_scan tokens None of
        (None, v) \<Rightarrow> s
      | (Some nm, v) \<Rightarrow>
          set_option nm v (s\<lparr> options := dict_set nm (string_option v) (options s) \<rparr>))"

section \<open>Position\<close>

text \<open>The move loop of \<open>_cmd_position\<close>, over the tokens after \<open>moves\<close>.\<close>

fun position_moves :: "('p, 'm) rules \<Rightarrow> string list \<Rightarrow> 'p engine \<Rightarrow> 'p engine" where
  "position_moves r [] s = s"
| "position_moves r (mv # rest) s =
     (case from_uci r mv of
        None \<Rightarrow> position_moves r rest (logger (''Failed to parse move in position: '' @ mv) s)
      | Some m \<Rightarrow>
          (let s1 = (if m \<in> set (legal_moves r (board s)) then s
                     else logger (''Illegal move in position: '' @ mv) s)
           in case push r (board s1) m of
                Pushed b \<Rightarrow> position_moves r rest (s1\<lparr> board := b \<rparr>)
              | PushRaised b \<Rightarrow>
                  position_moves r rest
                    (logger (''Failed to parse move in position: '' @ mv) (s1\<lparr> board := b \<rparr>))))"

definition cmd_position :: "('p, 'm) rules \<Rightarrow> string list \<Rightarrow> 'p engine \<Rightarrow> error + 'p engine" where
  "cmd_position r tokens s =
     (if tokens = [] then Inr s
      else
        (case (if hd tokens = ''startpos'' then Inr (s\<lparr> board := initial r \<rparr>, 1::nat)
               else if hd tokens = ''fen'' then
                 (case from_fen r (join_with '' '' (take 6 (drop 1 tokens))) of
                    None \<Rightarrow> Inl ValueError
                  | Some b \<Rightarrow> Inr (s\<lparr> board := b \<rparr>, 7))
               else Inr (s, 0)) of
           Inl e \<Rightarrow> Inl e
         | Inr (s1, i) \<Rightarrow>
             Inr (if i < length tokens \<and> tokens ! i = ''moves''
                  then position_moves r (drop (i + 1) tokens) s1 else s1)))"

section \<open>go\<close>

definition go_keys :: "string list" where
  "go_keys = [''wtime'', ''btime'', ''winc'', ''binc'', ''movestogo'', ''depth'', ''nodes'',
              ''mate'', ''movetime'']"

definition go_value :: "string \<Rightarrow> limval" where
  "go_value v = (case py_int v of Some n \<Rightarrow> LInt n | None \<Rightarrow> LStr v)"

fun go_scan :: "string list \<Rightarrow> limits \<Rightarrow> limits" where
  "go_scan [] lms = lms"
| "go_scan [t] lms =
     (if t \<in> set go_keys then lms
      else if t = ''infinite'' then dict_set ''infinite'' LTrue lms
      else if t = ''ponder'' then dict_set ''ponder'' LTrue lms
      else lms)"
| "go_scan (t # v # rest) lms =
     (if t \<in> set go_keys then go_scan rest (dict_set t (go_value v) lms)
      else if t = ''infinite'' then go_scan (v # rest) (dict_set ''infinite'' LTrue lms)
      else if t = ''ponder'' then go_scan (v # rest) (dict_set ''ponder'' LTrue lms)
      else go_scan (v # rest) lms)"

text \<open>
  \<open>x / 1000.0\<close>: a string raises \<open>TypeError\<close>, an int too large for a float raises
  \<open>OverflowError\<close>.
\<close>

definition to_seconds :: "limval \<Rightarrow> error + limval" where
  "to_seconds v =
     (case v of
        LInt n \<Rightarrow> if \<bar>n\<bar> \<ge> 2 ^ 1024 - 2 ^ 970 then Inl OverflowError else Inr (LSeconds n)
      | _ \<Rightarrow> Inl TypeError)"

definition side_time :: "string \<Rightarrow> limits \<Rightarrow> error + limits" where
  "side_time k lms =
     (case dict_get lms k of
        None \<Rightarrow> Inr lms
      | Some v \<Rightarrow>
          (case to_seconds v of
             Inl e \<Rightarrow> Inl e
           | Inr t \<Rightarrow> Inr (if dict_get lms ''time'' = None then dict_set ''time'' t lms else lms)))"

definition parse_go :: "('p, 'm) rules \<Rightarrow> string list \<Rightarrow> 'p engine \<Rightarrow> error + limits" where
  "parse_go r tokens s =
     (let lms = go_scan tokens [] in
      case dict_get lms ''movetime'' of
        Some v \<Rightarrow>
          (case to_seconds v of Inl e \<Rightarrow> Inl e | Inr t \<Rightarrow> Inr (dict_set ''time'' t lms))
      | None \<Rightarrow> if turn r (board s) then side_time ''wtime'' lms else side_time ''btime'' lms)"

section \<open>Search lifecycle\<close>

text \<open>
  \<open>resume k\<close> is what the dispatcher still does once \<open>_stop_search\<close> has returned:
  in \<open>_start_search\<close> it clears the stop event and spawns the worker, in
  \<open>_cmd_ucinewgame\<close> it clears the stop event, after \<open>_cmd_quit\<close> the loop is left and the
  \<open>finally\<close> block of \<open>run\<close> calls \<open>_stop_search\<close> once more (now without a thread), at
  end of input \<open>run\<close> returns.
\<close>

fun resume :: "cont \<Rightarrow> 'p engine \<Rightarrow> 'p engine" where
  "resume (KStart lms) s =
     s\<lparr> stop_event := False, threads := threads s @ [Created lms],
        search_thread := Some (length (threads s)), disp := Idle \<rparr>"
| "resume KStop s = s\<lparr> disp := Idle \<rparr>"
| "resume KNewgame s = s\<lparr> stop_event := False, disp := Idle \<rparr>"
| "resume KQuit s = s\<lparr> stop_event := True, search_thread := None, disp := Stopped \<rparr>"
| "resume KEof s = s\<lparr> disp := Stopped \<rparr>"

text \<open>
  \<open>_stop_search(wait=True)\<close>, followed by the rest \<open>k\<close> of its caller: set the stop
  event, forget the tracked thread, and join it if there was one. (Every call in the
  source passes \<open>wait=True\<close>.)
\<close>

definition stop_search :: "cont \<Rightarrow> 'p engine \<Rightarrow> 'p engine" where
  "stop_search k s =
     (let s1 = s\<lparr> stop_event := True, search_thread := None \<rparr> in
      case search_thread s of
        None \<Rightarrow> resume k s1
      | Some th \<Rightarrow> s1\<lparr> disp := Joining th k \<rparr>)"

text \<open>\<open>_search_lock\<close> is only ever taken here, by the dispatcher thread, and is left out.\<close>

definition start_search :: "limits \<Rightarrow> 'p engine \<Rightarrow> 'p engine" where
  "start_search lms s = stop_search (KStart lms) s"

definition cmd_go :: "('p, 'm) rules \<Rightarrow> string list \<Rightarrow> 'p engine \<Rightarrow> error + 'p engine" where
  "cmd_go r tokens s =
     (case parse_go r tokens s of
        Inl e \<Rightarrow> Inl e
      | Inr lms \<Rightarrow> Inr (start_search lms (s\<lparr> ponder := (dict_get lms ''ponder'' \<noteq> None) \<rparr>)))"

definition cmd_stop :: "'p engine \<Rightarrow> 'p engine" where
  "cmd_stop s = stop_search KStop s"

definition cmd_ponderhit :: "'p engine \<Rightarrow> 'p engine" where
  "cmd_ponderhit s = s\<lparr> ponder := False \<rparr>"

definition cmd_quit :: "'p engine \<Rightarrow> 'p engine" where
  "cmd_quit s = stop_search KQuit s"

text \<open>\<open>_cmd_ucinewgame\<close>, statement by statement: reset the board, set the stop event,
  \<open>_stop_search\<close>, and (after the join) clear the stop event.\<close>

definition cmd_ucinewgame :: "('p, 'm) rules \<Rightarrow> 'p engine \<Rightarrow> 'p engine" where
  "cmd_ucinewgame r s = stop_search KNewgame (s\<lparr> board := initial r, stop_event := True \<rparr>)"

section \<open>The search worker\<close>

definition search_args :: "'p \<Rightarrow> limits \<Rightarrow> 'p arg list" where
  "search_args snapshot lms = [ArgBoard snapshot, ArgLimits lms, ArgStopEvent, ArgInfoCallback]"

definition accepts :: "strategy \<Rightarrow> nat \<Rightarrow> bool" where
  "accepts fn n = (case fn of DefaultSearch \<Rightarrow> 3 \<le> n \<and> n \<le> 4 | External lo hi \<Rightarrow> lo \<le> n \<and> n \<le> hi)"

text \<open>\<open>next(iter(self.board.legal_moves)).uci()\<close>, or \<open>(none)\<close> on \<open>StopIteration\<close>.\<close>

definition fallback :: "('p, 'm) rules \<Rightarrow> 'p \<Rightarrow> string" where
  "fallback r b = (case legal_moves r b of [] \<Rightarrow> ''(none)'' | m # _ \<Rightarrow> uci r m)"

definition finish :: "nat \<Rightarrow> 'p engine \<Rightarrow> 'p engine" where
  "finish t s = s\<lparr> threads := (threads s)[t := Finished] \<rparr>"

text \<open>The \<open>except Exception\<close> branch of \<open>_search_worker\<close>.\<close>

definition worker_except :: "('p, 'm) rules \<Rightarrow> nat \<Rightarrow> 'p engine \<Rightarrow> 'p engine" where
  "worker_except r t s =
     finish t (send (Worker t) (''bestmove '' @ fallback r (board s))
                 (s\<lparr> tracebacks := tracebacks s + 1 \<rparr>))"

text \<open>The worker up to and including the call of the Strategy. A call with a number of
  arguments the callable does not accept raises \<open>TypeError\<close> before its body runs.\<close>

definition worker_begin :: "('p, 'm) rules \<Rightarrow> nat \<Rightarrow> limits \<Rightarrow> 'p engine \<Rightarrow> 'p engine" where
  "worker_begin r t lms s =
     (let args = search_args (board s) lms in
      if search_fn s \<noteq> DefaultSearch \<and> accepts (search_fn s) (length args)
      then s\<lparr> threads := (threads s)[t := Running args] \<rparr>
      else worker_except r t s)"

text \<open>The nested \<open>info_callback\<close>, called by the Strategy at time \<open>now\<close>.\<close>

definition info_callback :: "src \<Rightarrow> rat \<Rightarrow> info \<Rightarrow> 'p engine \<Rightarrow> 'p engine" where
  "info_callback who now i s =
     (if now - last_info_time s \<ge> 1 / 20 then
        (case send_info who i s of
           Inl e \<Rightarrow> s\<lparr> last_info_time := now \<rparr>
         | Inr s' \<Rightarrow> s'\<lparr> last_info_time := now \<rparr>)
      else s)"

text \<open>The worker after the Strategy has returned \<open>v\<close>.\<close>

definition truthy :: "string option \<Rightarrow> bool" where
  "truthy p = (case p of None \<Rightarrow> False | Some x \<Rightarrow> x \<noteq> [])"

definition best_and_ponder :: "('p, 'm) rules \<Rightarrow> pyval \<Rightarrow> 'p engine \<Rightarrow> string \<times> string option" where
  "best_and_ponder r v s =
     (let best = (case v of PNone \<Rightarrow> fallback r (board s) | _ \<Rightarrow> py_str v) in
      case v of
        PTuple (a # b # _) \<Rightarrow> (py_str a, Some (py_str b))
      | _ \<Rightarrow> (best, if truthy (ponder_move s) then ponder_move s else None))"

definition bestmove_line :: "string \<times> string option \<Rightarrow> string" where
  "bestmove_line bp =
     (if truthy (snd bp) then ''bestmove '' @ fst bp @ '' ponder '' @ the (snd bp)
      else ''bestmove '' @ fst bp)"

definition worker_return :: "('p, 'm) rules \<Rightarrow> nat \<Rightarrow> pyval \<Rightarrow> 'p engine \<Rightarrow> 'p engine" where
  "worker_return r t v s = finish t (send (Worker t) (bestmove_line (best_and_ponder r v s)) s)"

section \<open>Dispatch\<close>

definition handle_line :: "('p, 'm) rules \<Rightarrow> string \<Rightarrow> 'p engine \<Rightarrow> error + 'p engine" where
  "handle_line r line s =
     (case split_ws line of
        [] \<Rightarrow> Inl IndexError
      | cmd # args \<Rightarrow>
          if cmd = ''uci'' then Inr (cmd_uci s)
          else if cmd = ''isready'' then Inr (cmd_isready s)
          else if cmd = ''setoption'' then Inr (cmd_setoption args s)
          else if cmd = ''ucinewgame'' then Inr (cmd_ucinewgame r s)
          else if cmd = ''position'' then cmd_position r args s
          else if cmd = ''go'' then cmd_go r args s
          else if cmd = ''stop'' then Inr (cmd_stop s)
          else if cmd = ''ponderhit'' then Inr (cmd_ponderhit s)
          else if cmd = ''quit'' then Inr (cmd_quit s)
          else Inr (logger (''Unknown command: '' @ line) s))"

text \<open>
  One turn of the loop in \<open>run\<close> on the line \<open>readline()\<close> returned (the empty string is
  end of input). A handler that raises has its traceback printed and the loop goes on;
  both handlers that can raise do so before they change the session.
\<close>

definition recv :: "('p, 'm) rules \<Rightarrow> string \<Rightarrow> 'p engine \<Rightarrow> 'p engine" where
  "recv r line s =
     (if line = [] then stop_search KEof s
      else if strip line = [] then s
      else
        (let s1 = logger (''<- '' @ strip line) s in
         case handle_line r (strip line) s1 of
           Inl e \<Rightarrow> s1\<lparr> tracebacks := tracebacks s1 + 1 \<rparr>
         | Inr s2 \<Rightarrow> s2))"

section \<open>The engine and its workers as one machine\<close>

text \<open>
  An event is one step of one thread.
  \<^item> \<open>Recv line\<close>: the idle dispatcher reads \<open>line\<close> and handles it, up to a join.
  \<^item> \<open>Joined\<close>: the pending join returns because the joined thread has finished.
  \<^item> \<open>JoinTimeout\<close>: the pending join returns after its 5 seconds with the thread still
    alive; the thread is abandoned.
  \<^item> \<open>Begin t\<close>: worker \<open>t\<close> starts running \<open>_search_worker\<close> and calls the Strategy.
  \<^item> \<open>Info t now i\<close>: the Strategy of worker \<open>t\<close> calls the info callback at time \<open>now\<close>.
  \<^item> \<open>SetPonder t p\<close>: the Strategy of worker \<open>t\<close> sets \<open>ponder_move\<close>.
  \<^item> \<open>Done t res\<close>: the Strategy of worker \<open>t\<close> returns a value or raises an \<open>Exception\<close>,
    and the worker runs to its end.
  An event that is not enabled leaves the state as it is.
\<close>

datatype result = Returned pyval | Raised

datatype event =
    Recv string
  | Joined
  | JoinTimeout
  | Begin nat
  | Info nat rat info
  | SetPonder nat "string option"
  | Done nat result

definition thread_state :: "'p engine \<Rightarrow> nat \<Rightarrow> 'p wstate option" where
  "thread_state s t = (if t < length (threads s) then Some (threads s ! t) else None)"

fun step :: "('p, 'm) rules \<Rightarrow> event \<Rightarrow> 'p engine \<Rightarrow> 'p engine" where
  "step r (Recv line) s = (if disp s = Idle then recv r line s else s)"
| "step r Joined s =
     (case disp s of
        Joining th k \<Rightarrow> if thread_state s th = Some Finished then resume k s else s
      | _ \<Rightarrow> s)"
| "step r JoinTimeout s =
     (case disp s of
        Joining th k \<Rightarrow>
          (case thread_state s th of
             None \<Rightarrow> s
           | Some Finished \<Rightarrow> s
           | Some _ \<Rightarrow> resume k s)
      | _ \<Rightarrow> s)"
| "step r (Begin t) s =
     (case thread_state s t of Some (Created lms) \<Rightarrow> worker_begin r t lms s | _ \<Rightarrow> s)"
| "step r (Info t now i) s =
     (case thread_state s t of Some (Running args) \<Rightarrow> info_callback (Worker t) now i s | _ \<Rightarrow> s)"
| "step r (SetPonder t p) s =
     (case thread_state s t of Some (Running args) \<Rightarrow> s\<lparr> ponder_move := p \<rparr> | _ \<Rightarrow> s)"
| "step r (Done t res) s =
     (case thread_state s t of
        Some (Running args) \<Rightarrow>
          (case res of Returned v \<Rightarrow> worker_return r t v s | Raised \<Rightarrow> worker_except r t s)
      | _ \<Rightarrow> s)"

definition run :: "('p, 'm) rules \<Rightarrow> event list \<Rightarrow> 'p engine \<Rightarrow> 'p engine" where
  "run r evs s = foldl (\<lambda>s' e. step r e s') s evs"

section \<open>A miniature Rules Provider\<close>

text \<open>
  Used only to run the model on concrete inputs. A position is the list of moves played
  so far; a move is its coordinate text (four or five characters); White, to move after
  an even number of moves, may always play \<open>g1h3\<close> or \<open>e2e4\<close>, Black \<open>g8h6\<close> or \<open>e7e5\<close>;
  any move can be pushed; the only position string understood is the starting one.
\<close>

definition demo_rules :: "(string list, string) rules" where
  "demo_rules =
     \<lparr> initial = [],
       from_fen = (\<lambda>f. if f = ''rnbqkbnr/pppppppp/8/8/8/8/PPPPPPPP/RNBQKBNR w KQkq - 0 1''
                        then Some [] else None),
       turn = (\<lambda>p. even (length p)),
       legal_moves = (\<lambda>p. if even (length p) then [''g1h3'', ''e2e4''] else [''g8h6'', ''e7e5'']),
       push = (\<lambda>p m. Pushed (p @ [m])),
       from_uci = (\<lambda>t. if length t = 4 \<or> length t = 5 then Some t else None),
       uci = (\<lambda>m. m) \<rparr>"

definition demo_engine :: "strategy \<Rightarrow> string list engine" where
  "demo_engine fn = init demo_rules ''MinimalPyUCI'' ''ciaranmcguinness'' fn"

section \<open>Definitions used to state the properties\<close>

text \<open>
  The engine as a host like \<open>dilute.py\<close> sets it up: a Strategy with five parameters
  and two options put into \<open>self.options\<close> before the loop starts.
\<close>

definition registered_engine :: "string list engine" where
  "registered_engine =
     (demo_engine (External 5 5))
       \<lparr> options :=
           [(''Dilution'', \<lparr> o_type = Some (OptStr ''spin''), o_default = Some (OptInt 50),
                            o_min = Some (OptInt 0), o_max = Some (OptInt 100), o_var = None \<rparr>),
            (''Engine Path'', \<lparr> o_type = Some (OptStr ''string''),
                               o_default = Some (OptStr ''./stockfish''),
                               o_min = None, o_max = None, o_var = None \<rparr>)] \<rparr>"

text \<open>
  The position the Rules Provider reaches from \<open>p\<close> by decoding the move tokens and
  applying them in order (\<open>None\<close> if a token does not decode or a move cannot be applied),
  and what it means for the tokens to be a sequence of legal moves from \<open>p\<close>.
\<close>

fun provider_play :: "('p, 'm) rules \<Rightarrow> 'p \<Rightarrow> string list \<Rightarrow> 'p option" where
  "provider_play r p [] = Some p"
| "provider_play r p (t # ts) =
     (case from_uci r t of
        None \<Rightarrow> None
      | Some m \<Rightarrow> (case push r p m of Pushed p' \<Rightarrow> provider_play r p' ts | PushRaised p' \<Rightarrow> None))"

fun legal_sequence :: "('p, 'm) rules \<Rightarrow> 'p \<Rightarrow> string list \<Rightarrow> bool" where
  "legal_sequence r p [] = True"
| "legal_sequence r p (t # ts) =
     (case from_uci r t of
        None \<Rightarrow> False
      | Some m \<Rightarrow>
          m \<in> set (legal_moves r p)
          \<and> (case push r p m of Pushed p' \<Rightarrow> legal_sequence r p' ts | PushRaised p' \<Rightarrow> False))"

text \<open>
  The nine commands of the dispatcher; when a line makes the loop end (end of input, or
  \<open>quit\<close> as its first token); and the dispatcher states in which the loop has ended or
  only waits for its last join.
\<close>

definition known_commands :: "string list" where
  "known_commands = [''uci'', ''isready'', ''setoption'', ''ucinewgame'', ''position'', ''go'',
                     ''stop'', ''ponderhit'', ''quit'']"

definition quit_or_eof :: "string \<Rightarrow> bool" where
  "quit_or_eof line =
     (line = [] \<or> (case split_ws (strip line) of [] \<Rightarrow> False | cmd # args \<Rightarrow> cmd = ''quit''))"

fun closing :: "dstate \<Rightarrow> bool" where
  "closing Stopped = True"
| "closing (Joining th KQuit) = True"
| "closing (Joining th KEof) = True"
| "closing d = False"

text \<open>
  The info callback called at the times, and with the events, of \<open>calls\<close>, one call after
  the other: \<open>emit_times\<close> lists the times of the calls that wrote a line. \<open>gapped lo ts\<close>
  says that the times \<open>ts\<close> start at least one throttle interval (1/20 s) after \<open>lo\<close> and
  are at least one interval apart. \<open>demo_info\<close> is the event \<open>quick_search\<close> reports.
\<close>

fun emit_times :: "src \<Rightarrow> (rat \<times> info) list \<Rightarrow> 'p engine \<Rightarrow> rat list" where
  "emit_times who [] s = []"
| "emit_times who (c # cs) s =
     (let s' = info_callback who (fst c) (snd c) s in
      (if length (out s') > length (out s) then [fst c] else []) @ emit_times who cs s')"

fun gapped :: "rat \<Rightarrow> rat list \<Rightarrow> bool" where
  "gapped lo [] = True"
| "gapped lo (t # ts) = (lo + 1 / 20 \<le> t \<and> gapped t ts)"

definition demo_info :: info where
  "demo_info =
     \<lparr> i_depth = Some (PObj ''1'' ''1''), i_seldepth = None, i_score = None,
       i_nodes = Some (PObj ''1'' ''1''), i_nps = None, i_pv = Some (PList [PMove ''e2e4'']),
       i_time = Some (Ms 0) \<rparr>"

text \<open>
  A bestmove line; the number of bestmove lines worker \<open>t\<close> has written; and the
  invariant that every worker has written one bestmove line if it has finished and none
  otherwise.
\<close>

definition is_bestmove :: "string \<Rightarrow> bool" where
  "is_bestmove l = (take 9 l = ''bestmove '')"

definition bestmoves :: "nat \<Rightarrow> (src \<times> string) list \<Rightarrow> nat" where
  "bestmoves t ls = length (filter (\<lambda>p. fst p = Worker t \<and> is_bestmove (snd p)) ls)"

definition counted :: "'p engine \<Rightarrow> bool" where
  "counted s = (\<forall>t. bestmoves t (out s) = (if thread_state s t = Some Finished then 1 else 0))"

text \<open>The Python value \<open>""\<close>: its \<open>str()\<close> is empty, its \<open>repr()\<close> is two quotes.\<close>

definition empty_string :: pyval where
  "empty_string = PObj [] [CHR 0x27, CHR 0x27]"

text \<open>
  The number of workers that have been spawned and have not finished; and the invariant
  of runs in which no join times out: a worker that has not finished is the tracked
  \<open>search_thread\<close> or the one the dispatcher is joining, and while the dispatcher joins
  no thread is tracked.
\<close>

definition alive :: "'p engine \<Rightarrow> nat" where
  "alive s = length (filter (\<lambda>w. w \<noteq> Finished) (threads s))"

definition tracked :: "'p engine \<Rightarrow> bool" where
  "tracked s =
     ((\<forall>t w. thread_state s t = Some w \<and> w \<noteq> Finished
          \<longrightarrow> search_thread s = Some t \<or> (\<exists>k. disp s = Joining t k))
      \<and> (\<forall>t k. disp s = Joining t k \<longrightarrow> search_thread s = None))"

section \<open>Reading a line, options and the handshake\<close>

lemma split_ws_Nil: "split_ws [] = []"
  by (simp add: split_ws_def)

lemma strip_Nil: "strip [] = []"
  by (simp add: strip_def)

lemma recv_tokens:
  assumes "split_ws (strip line) = cmd # args"
  shows "recv r line s =
     (case handle_line r (strip line) (logger (''<- '' @ strip line) s) of
        Inl e \<Rightarrow> (logger (''<- '' @ strip line) s)\<lparr> tracebacks := tracebacks s + 1 \<rparr>
      | Inr s2 \<Rightarrow> s2)"
proof -
  have "strip line \<noteq> []" using assms split_ws_Nil by fastforce
  moreover have "line \<noteq> []" using calculation strip_Nil by fastforce
  ultimately show ?thesis by (auto simp: recv_def Let_def logger_def split: sum.splits)
qed

lemma map_of_dict_set: "map_of (dict_set k v d) k = Some v"
  by (induction d) auto

lemma dict_get_set: "dict_get (dict_set k v d) k = Some v"
  by (simp add: dict_get_def map_of_dict_set)

lemma dict_set_mem: "(k, v) \<in> set (dict_set k v d)"
  by (induction d) auto

lemma dict_set_idem: "dict_set k v (dict_set k v d) = dict_set k v d"
  by (induction d) auto

lemma scan_name: "setoption_scan (''name'' # ts) nm =
    setoption_scan (dropWhile (\<lambda>x. x \<noteq> ''value'') ts)
          (Some (join_with '' '' (takeWhile (\<lambda>x. x \<noteq> ''value'') ts)))"
  by simp

lemma scan_value: "setoption_scan (''value'' # ts) nm = (nm, Some (join_with '' '' ts))"
  by simp

lemma scan_other: "t \<noteq> ''name'' \<Longrightarrow> t \<noteq> ''value'' \<Longrightarrow> setoption_scan (t # ts) nm = setoption_scan ts nm"
  by simp

declare setoption_scan.simps(2) [simp del]

lemma setoption_scan_skip:
  "''name'' \<notin> set pre \<Longrightarrow> ''value'' \<notin> set pre \<Longrightarrow>
   setoption_scan (pre @ ts) nm = setoption_scan ts nm"
  by (induction pre) (auto simp: scan_other)

lemma no_value_take: "''value'' \<notin> set nm \<Longrightarrow> takeWhile (\<lambda>x. x \<noteq> ''value'') (nm @ rest) = nm @ takeWhile (\<lambda>x. x \<noteq> ''value'') rest"
  by (induction nm) auto

lemma no_value_drop: "''value'' \<notin> set nm \<Longrightarrow> dropWhile (\<lambda>x. x \<noteq> ''value'') (nm @ rest) = dropWhile (\<lambda>x. x \<noteq> ''value'') rest"
  by (induction nm) auto

lemma no_value_take0: "''value'' \<notin> set nm \<Longrightarrow> takeWhile (\<lambda>x. x \<noteq> ''value'') nm = nm"
  by (induction nm) auto

lemma no_value_drop0: "''value'' \<notin> set nm \<Longrightarrow> dropWhile (\<lambda>x. x \<noteq> ''value'') nm = []"
  by (induction nm) auto

lemma setoption_scan_name_only:
  "''value'' \<notin> set nm \<Longrightarrow> setoption_scan (''name'' # nm) old = (Some (join_with '' '' nm), None)"
  by (simp add: scan_name no_value_take0 no_value_drop0)

lemma setoption_scan_name_value:
  "''value'' \<notin> set nm \<Longrightarrow>
   setoption_scan (''name'' # nm @ ''value'' # vs) old = (Some (join_with '' '' nm), Some (join_with '' '' vs))"
  by (simp add: scan_name scan_value no_value_take no_value_drop)

lemma send_fields [simp]:
  "out (send w l s) = out s @ [(w, l)]"
  "logged (send w l s) = logged s @ [''-> '' @ l]"
  "threads (send w l s) = threads s"
  "disp (send w l s) = disp s"
  "board (send w l s) = board s"
  "options (send w l s) = options s"
  "search_thread (send w l s) = search_thread s"
  "stop_event (send w l s) = stop_event s"
  "last_info_time (send w l s) = last_info_time s"
  "tracebacks (send w l s) = tracebacks s"
  "ponder_move (send w l s) = ponder_move s"
  "ponder (send w l s) = ponder s"
  "search_fn (send w l s) = search_fn s"
  "name (send w l s) = name s"
  "author (send w l s) = author s"
  by (simp_all add: send_def)

lemma logger_fields [simp]:
  "out (logger m s) = out s"
  "logged (logger m s) = logged s @ [m]"
  "threads (logger m s) = threads s"
  "disp (logger m s) = disp s"
  "board (logger m s) = board s"
  "options (logger m s) = options s"
  "search_thread (logger m s) = search_thread s"
  "stop_event (logger m s) = stop_event s"
  "last_info_time (logger m s) = last_info_time s"
  "tracebacks (logger m s) = tracebacks s"
  "ponder_move (logger m s) = ponder_move s"
  "ponder (logger m s) = ponder s"
  "search_fn (logger m s) = search_fn s"
  "name (logger m s) = name s"
  "author (logger m s) = author s"
  by (simp_all add: logger_def)

lemma foldl_send_fields [simp]:
  "out (foldl (\<lambda>s' p. send w (f p) s') s ps) = out s @ map (\<lambda>p. (w, f p)) ps"
  "threads (foldl (\<lambda>s' p. send w (f p) s') s ps) = threads s"
  "disp (foldl (\<lambda>s' p. send w (f p) s') s ps) = disp s"
  "board (foldl (\<lambda>s' p. send w (f p) s') s ps) = board s"
  "options (foldl (\<lambda>s' p. send w (f p) s') s ps) = options s"
  "search_thread (foldl (\<lambda>s' p. send w (f p) s') s ps) = search_thread s"
  "stop_event (foldl (\<lambda>s' p. send w (f p) s') s ps) = stop_event s"
  "last_info_time (foldl (\<lambda>s' p. send w (f p) s') s ps) = last_info_time s"
  "tracebacks (foldl (\<lambda>s' p. send w (f p) s') s ps) = tracebacks s"
  "ponder_move (foldl (\<lambda>s' p. send w (f p) s') s ps) = ponder_move s"
  "search_fn (foldl (\<lambda>s' p. send w (f p) s') s ps) = search_fn s"
  by (induction ps arbitrary: s) simp_all

lemma cmd_uci_out:
  "out (cmd_uci s) = out s @ map (Pair Dispatcher)
     ([''id name '' @ name s, ''id author '' @ author s] @ map option_line (options s) @ [''uciok''])"
  by (simp add: cmd_uci_def comp_def)


lemma cmd_setoption_named:
  assumes "setoption_scan tokens None = (Some nm, v)"
  shows "cmd_setoption tokens s = s\<lparr> options := dict_set nm (string_option v) (options s) \<rparr>"
  using assms by (simp add: cmd_setoption_def set_option_def dict_set_idem)

lemma setoption_scan_shape:
  assumes "''name'' \<notin> set pre" "''value'' \<notin> set pre" "''value'' \<notin> set nm"
    and "rest = [] \<or> hd rest = ''value''"
  shows "setoption_scan (pre @ ''name'' # nm @ rest) None =
           (Some (join_with '' '' nm), if rest = [] then None else Some (join_with '' '' (tl rest)))"
proof (cases rest)
  case Nil
  then show ?thesis using assms by (simp add: setoption_scan_skip setoption_scan_name_only)
next
  case (Cons a vs)
  then have "rest = ''value'' # vs" using assms(4) by simp
  then show ?thesis using assms by (simp add: setoption_scan_skip setoption_scan_name_value)
qed

lemma handle_setoption:
  assumes "split_ws line = ''setoption'' # args"
  shows "handle_line r line s = Inr (cmd_setoption args s)"
  using assms by (simp add: handle_line_def)

lemma handle_uci:
  assumes "split_ws line = ''uci'' # args"
  shows "handle_line r line s = Inr (cmd_uci s)"
  using assms by (simp add: handle_line_def)

lemma strip_uci: "strip ''uci'' = ''uci''" "split_ws ''uci'' = [''uci'']"
  by (simp_all add: strip_def is_space_def split_ws_def)

lemma recv_uci: "recv r ''uci'' s = cmd_uci (logger ''<- uci'' s)"
  using recv_tokens[of "''uci''" "''uci''" "[]" r s]
  by (simp add: strip_uci handle_uci)

lemma uci_shows_option:
  assumes "disp s = Idle" and "p \<in> set (options s)"
  shows "(Dispatcher, option_line p) \<in> set (drop (length (out s)) (out (step r (Recv ''uci'') s)))"
  using assms by (simp add: recv_uci cmd_uci_out image_iff) blast

text \<open>
  Claim C10. A \<open>setoption\<close> line in which \<open>name\<close> comes before any \<open>value\<close> token stores,
  under the name (the tokens up to \<open>value\<close>, joined by single spaces), exactly the record
  with \<open>type\<close> \<open>string\<close> and \<open>default\<close> the value (the remaining tokens joined, or \<open>None\<close>
  when no \<open>value\<close> token follows). Whatever was stored for that name before, with its
  kind, default, min, max and choices, is replaced, and the option line the next \<open>uci\<close>
  emits for the name shows the new value after \<open>default\<close>.
\<close>

theorem setoption_overwrites_record:
  assumes "disp s = Idle"
    and "split_ws (strip line) = ''setoption'' # pre @ ''name'' # nm @ rest"
    and "''name'' \<notin> set pre" and "''value'' \<notin> set pre" and "''value'' \<notin> set nm"
    and "rest = [] \<or> hd rest = ''value''"
  shows "dict_get (options (step r (Recv line) s)) (join_with '' '' nm) =
           Some \<lparr> o_type = Some (OptStr ''string''),
                  o_default = Some (if rest = [] then OptNone else OptStr (join_with '' '' (tl rest))),
                  o_min = None, o_max = None, o_var = None \<rparr>
       \<and> (Dispatcher, ''option name '' @ join_with '' '' nm @ '' type string default ''
              @ (if rest = [] then ''None'' else join_with '' '' (tl rest)))
           \<in> set (drop (length (out (step r (Recv line) s)))
                    (out (step r (Recv ''uci'') (step r (Recv line) s))))"
proof -
  let ?n = "join_with '' '' nm"
  let ?v = "if rest = [] then None else Some (join_with '' '' (tl rest))"
  let ?s1 = "logger (''<- '' @ strip line) s"
  have scan: "setoption_scan (pre @ ''name'' # nm @ rest) None = (Some ?n, ?v)"
    using assms(3-6) by (rule setoption_scan_shape)
  have s': "step r (Recv line) s = ?s1\<lparr> options := dict_set ?n (string_option ?v) (options ?s1) \<rparr>"
    using assms(1) recv_tokens[OF assms(2), of r s] handle_setoption[OF assms(2), of r ?s1]
      cmd_setoption_named[OF scan, of ?s1]
    by simp
  have mem: "(?n, string_option ?v) \<in> set (dict_set ?n (string_option ?v) (options s))"
    by (rule dict_set_mem)
  have line: "option_line (?n, string_option ?v) =
      ''option name '' @ ?n @ '' type string default ''
              @ (if rest = [] then ''None'' else join_with '' '' (tl rest))"
    by (simp add: option_line_def string_option_def)
  have "dict_get (options (step r (Recv line) s)) ?n = Some (string_option ?v)"
    unfolding s' by (simp add: dict_get_set)
  moreover have "(Dispatcher, option_line (?n, string_option ?v))
      \<in> set (drop (length (out (step r (Recv line) s)))
                    (out (step r (Recv ''uci'') (step r (Recv line) s))))"
    by (rule uci_shows_option) (simp_all add: s' assms(1) mem del: step.simps)
  ultimately show ?thesis unfolding line by (simp add: string_option_def)
qed


lemmas text_eval = split_ws_def strip_def is_space_def

theorem setoption_overwrites_record_witness:
  "dict_get (options (step demo_rules (Recv ''setoption name Dilution value 75'') registered_engine))
      ''Dilution''
     = Some \<lparr> o_type = Some (OptStr ''string''), o_default = Some (OptStr ''75''),
              o_min = None, o_max = None, o_var = None \<rparr>
   \<and> (Dispatcher, ''option name Dilution type string default 75'')
       \<in> set (drop (length (out (step demo_rules (Recv ''setoption name Dilution value 75'')
                                     registered_engine)))
                (out (step demo_rules (Recv ''uci'')
                        (step demo_rules (Recv ''setoption name Dilution value 75'')
                           registered_engine))))"
proof -
  have h1: "disp registered_engine = Idle"
    by (simp add: registered_engine_def demo_engine_def init_def)
  have h2: "split_ws (strip ''setoption name Dilution value 75'')
              = ''setoption'' # [] @ ''name'' # [''Dilution''] @ [''value'', ''75'']"
    by (simp add: text_eval)
  show ?thesis
    using setoption_overwrites_record[OF h1 h2, of demo_rules] by simp
qed

lemma filter_absent_key: "k \<notin> fst ` set d \<Longrightarrow> filter (\<lambda>p. fst p = k) d = []"
  by (induction d) auto

lemma dict_set_filter:
  "distinct (map fst d) \<Longrightarrow> filter (\<lambda>p. fst p = k) (dict_set k v d) = [(k, v)]"
  by (induction d) (auto simp: filter_absent_key)

text \<open>
  Claim C9. After \<open>setoption name Dilution value 75\<close> the only option named \<open>Dilution\<close>
  holds 75, and \<open>uci\<close> emits the identification lines, one line per option and \<open>uciok\<close>;
  the line for \<open>Dilution\<close> reads \<open>option name Dilution type string default 75\<close>. A
  \<open>setoption\<close> for a name that is not registered raises nothing, leaves the loop running
  and stores the value, which can be looked up afterwards.
\<close>

theorem setoption_then_uci:
  assumes "disp s = Idle" and "distinct (map fst (options s))"
  shows "(let s1 = step r (Recv ''setoption name Dilution value 75'') s;
              s2 = step r (Recv ''uci'') s1
          in out s1 = out s \<and> tracebacks s1 = tracebacks s
           \<and> filter (\<lambda>p. fst p = ''Dilution'') (options s1) = [(''Dilution'', string_option (Some ''75''))]
           \<and> out s2 = out s1 @ map (Pair Dispatcher)
                 ([''id name '' @ name s, ''id author '' @ author s]
                    @ map option_line (options s1) @ [''uciok''])
           \<and> option_line (''Dilution'', string_option (Some ''75''))
                 = ''option name Dilution type string default 75'')
       \<and> (\<forall>line nm vs.
             split_ws (strip line) = ''setoption'' # ''name'' # nm @ ''value'' # vs
               \<and> ''value'' \<notin> set nm \<and> dict_get (options s) (join_with '' '' nm) = None
             \<longrightarrow> tracebacks (step r (Recv line) s) = tracebacks s
               \<and> disp (step r (Recv line) s) = Idle
               \<and> dict_get (options (step r (Recv line) s)) (join_with '' '' nm)
                   = Some (string_option (Some (join_with '' '' vs))))"
proof -
  have general: "step r (Recv line) s
        = (logger (''<- '' @ strip line) s)
            \<lparr> options := dict_set (join_with '' '' nm) (string_option (Some (join_with '' '' vs)))
                           (options s) \<rparr>"
    if tok: "split_ws (strip line) = ''setoption'' # ''name'' # nm @ ''value'' # vs"
      and nv: "''value'' \<notin> set nm" for line nm vs
  proof -
    have "setoption_scan (''name'' # nm @ ''value'' # vs) None
            = (Some (join_with '' '' nm), Some (join_with '' '' vs))"
      using nv by (rule setoption_scan_name_value)
    then show ?thesis
      using assms(1) recv_tokens[OF tok, of r s]
        handle_setoption[OF tok, of r "logger (''<- '' @ strip line) s"]
      by (simp add: cmd_setoption_named)
  qed
  have tok: "split_ws (strip ''setoption name Dilution value 75'')
               = ''setoption'' # ''name'' # [''Dilution''] @ ''value'' # [''75'']"
    by (simp add: text_eval)
  have s1: "step r (Recv ''setoption name Dilution value 75'') s
        = (logger (''<- '' @ strip ''setoption name Dilution value 75'') s)
            \<lparr> options := dict_set ''Dilution'' (string_option (Some ''75'')) (options s) \<rparr>"
    using general[OF tok] by simp
  have line: "option_line (''Dilution'', string_option (Some ''75''))
                 = ''option name Dilution type string default 75''"
    by (simp add: option_line_def string_option_def)
  have first: "(let s1 = step r (Recv ''setoption name Dilution value 75'') s;
              s2 = step r (Recv ''uci'') s1
          in out s1 = out s \<and> tracebacks s1 = tracebacks s
           \<and> filter (\<lambda>p. fst p = ''Dilution'') (options s1) = [(''Dilution'', string_option (Some ''75''))]
           \<and> out s2 = out s1 @ map (Pair Dispatcher)
                 ([''id name '' @ name s, ''id author '' @ author s]
                    @ map option_line (options s1) @ [''uciok''])
           \<and> option_line (''Dilution'', string_option (Some ''75''))
                 = ''option name Dilution type string default 75'')"
    unfolding s1 Let_def
    by (simp add: assms recv_uci cmd_uci_out dict_set_filter line)
  have second: "tracebacks (step r (Recv line) s) = tracebacks s
               \<and> disp (step r (Recv line) s) = Idle
               \<and> dict_get (options (step r (Recv line) s)) (join_with '' '' nm)
                   = Some (string_option (Some (join_with '' '' vs)))"
    if "split_ws (strip line) = ''setoption'' # ''name'' # nm @ ''value'' # vs"
      and "''value'' \<notin> set nm" for line nm vs
    unfolding general[OF that] by (simp add: assms(1) dict_get_set)
  show ?thesis using first second by blast
qed

theorem setoption_then_uci_witness:
  "(let s1 = step demo_rules (Recv ''setoption name Dilution value 75'') registered_engine;
        s2 = step demo_rules (Recv ''uci'') s1
    in out s1 = out registered_engine \<and> tracebacks s1 = tracebacks registered_engine
     \<and> filter (\<lambda>p. fst p = ''Dilution'') (options s1) = [(''Dilution'', string_option (Some ''75''))]
     \<and> out s2 = out s1 @ map (Pair Dispatcher)
           ([''id name '' @ name registered_engine, ''id author '' @ author registered_engine]
              @ map option_line (options s1) @ [''uciok''])
     \<and> option_line (''Dilution'', string_option (Some ''75''))
           = ''option name Dilution type string default 75'')
   \<and> dict_get (options registered_engine) ''Skill Level'' = None
   \<and> tracebacks (step demo_rules (Recv ''setoption name Skill Level value 7'') registered_engine)
        = tracebacks registered_engine
   \<and> dict_get (options (step demo_rules (Recv ''setoption name Skill Level value 7'')
                           registered_engine)) ''Skill Level''
        = Some (string_option (Some ''7''))"
proof -
  have h1: "disp registered_engine = Idle"
    by (simp add: registered_engine_def demo_engine_def init_def)
  have h2: "distinct (map fst (options registered_engine))"
    by (simp add: registered_engine_def demo_engine_def init_def)
  note T = setoption_then_uci[OF h1 h2, of demo_rules]
  have tok: "split_ws (strip ''setoption name Skill Level value 7'')
               = ''setoption'' # ''name'' # [''Skill'', ''Level''] @ ''value'' # [''7'']"
    by (simp add: text_eval)
  have nv: "''value'' \<notin> set [''Skill'', ''Level'']" by simp
  have none: "dict_get (options registered_engine) (join_with '' '' [''Skill'', ''Level'']) = None"
    by (simp add: registered_engine_def demo_engine_def init_def dict_get_def)
  have B: "tracebacks (step demo_rules (Recv ''setoption name Skill Level value 7'') registered_engine)
        = tracebacks registered_engine
     \<and> disp (step demo_rules (Recv ''setoption name Skill Level value 7'') registered_engine) = Idle
     \<and> dict_get (options (step demo_rules (Recv ''setoption name Skill Level value 7'')
                           registered_engine)) (join_with '' '' [''Skill'', ''Level''])
        = Some (string_option (Some (join_with '' '' [''7''])))"
    using T[THEN conjunct2, rule_format, of "''setoption name Skill Level value 7''" "[''Skill'', ''Level'']" "[''7'']"]
      tok none nv by blast
  show ?thesis using T[THEN conjunct1] B none by simp
qed

section \<open>The position command\<close>

lemma position_moves_legal:
  "legal_sequence r (board s) toks \<Longrightarrow>
     provider_play r (board s) toks = Some (board (position_moves r toks s))
   \<and> logged (position_moves r toks s) = logged s
   \<and> out (position_moves r toks s) = out s
   \<and> disp (position_moves r toks s) = disp s"
proof (induction toks arbitrary: s)
  case Nil
  then show ?case by simp
next
  case (Cons t ts)
  from Cons.prems obtain m p' where m: "from_uci r t = Some m" "m \<in> set (legal_moves r (board s))"
      "push r (board s) m = Pushed p'" "legal_sequence r p' ts"
    by (auto split: option.splits pushed.splits)
  have "legal_sequence r (board (s\<lparr> board := p' \<rparr>)) ts" using m(4) by simp
  from Cons.IH[OF this] show ?case using m by simp
qed

lemma handle_position:
  assumes "split_ws line = ''position'' # args"
  shows "handle_line r line s = cmd_position r args s"
  using assms by (simp add: handle_line_def)

text \<open>
  Claim C6. For every sequence of legal moves from the initial position, after the line
  \<open>position startpos moves m1 ... mk\<close> the engine holds the position the Rules Provider
  reaches by applying the moves in order to the initial position.
\<close>

theorem position_startpos_moves:
  assumes "disp s = Idle"
    and "split_ws (strip line) = ''position'' # ''startpos'' # ''moves'' # toks"
    and "legal_sequence r (initial r) toks"
  shows "provider_play r (initial r) toks = Some (board (step r (Recv line) s))"
proof -
  let ?s1 = "logger (''<- '' @ strip line) s"
  have "legal_sequence r (board (?s1\<lparr> board := initial r \<rparr>)) toks" using assms(3) by simp
  from position_moves_legal[OF this]
  have "provider_play r (initial r) toks
          = Some (board (position_moves r toks (?s1\<lparr> board := initial r \<rparr>)))"
    by simp
  moreover have "step r (Recv line) s = position_moves r toks (?s1\<lparr> board := initial r \<rparr>)"
    using assms(1) recv_tokens[OF assms(2), of r s] handle_position[OF assms(2), of r ?s1]
    by (simp add: cmd_position_def)
  ultimately show ?thesis by simp
qed

theorem position_startpos_moves_witness:
  "legal_sequence demo_rules (initial demo_rules) [''e2e4'', ''e7e5'', ''g1h3'']
   \<and> provider_play demo_rules (initial demo_rules) [''e2e4'', ''e7e5'', ''g1h3'']
       = Some (board (step demo_rules (Recv ''position startpos moves e2e4 e7e5 g1h3'')
                        (demo_engine (External 4 4))))
   \<and> board (step demo_rules (Recv ''position startpos moves e2e4 e7e5 g1h3'')
                        (demo_engine (External 4 4))) = [''e2e4'', ''e7e5'', ''g1h3'']"
proof -
  have h1: "disp (demo_engine (External 4 4)) = Idle"
    by (simp add: demo_engine_def init_def)
  have h2: "split_ws (strip ''position startpos moves e2e4 e7e5 g1h3'')
              = ''position'' # ''startpos'' # ''moves'' # [''e2e4'', ''e7e5'', ''g1h3'']"
    by (simp add: text_eval)
  have h3: "legal_sequence demo_rules (initial demo_rules) [''e2e4'', ''e7e5'', ''g1h3'']"
    by (simp add: demo_rules_def)
  have v: "provider_play demo_rules (initial demo_rules) [''e2e4'', ''e7e5'', ''g1h3'']
             = Some [''e2e4'', ''e7e5'', ''g1h3'']"
    by (simp add: demo_rules_def)
  show ?thesis
    using position_startpos_moves[OF h1 h2 h3] h3 v by simp
qed

section \<open>The dispatch loop\<close>

lemma resume_fields [simp]:
  "out (resume k s) = out s"
  "logged (resume k s) = logged s"
  "board (resume k s) = board s"
  "options (resume k s) = options s"
  "last_info_time (resume k s) = last_info_time s"
  "tracebacks (resume k s) = tracebacks s"
  "ponder_move (resume k s) = ponder_move s"
  "search_fn (resume k s) = search_fn s"
  by (cases k; simp)+

lemma disp_resume: "disp (resume k s) = (if k = KQuit \<or> k = KEof then Stopped else Idle)"
  by (cases k) simp_all

lemma stop_search_fields [simp]:
  "out (stop_search k s) = out s"
  "logged (stop_search k s) = logged s"
  "board (stop_search k s) = board s"
  "options (stop_search k s) = options s"
  "last_info_time (stop_search k s) = last_info_time s"
  "tracebacks (stop_search k s) = tracebacks s"
  "ponder_move (stop_search k s) = ponder_move s"
  "search_fn (stop_search k s) = search_fn s"
  by (simp_all add: stop_search_def Let_def split: option.splits)

lemma closing_stop_search: "closing (disp (stop_search k s)) = (k = KQuit \<or> k = KEof)"
  by (cases k) (simp_all add: stop_search_def Let_def split: option.splits)

lemma position_moves_fields [simp]:
  "out (position_moves r toks s) = out s"
  "threads (position_moves r toks s) = threads s"
  "disp (position_moves r toks s) = disp s"
  "options (position_moves r toks s) = options s"
  "search_thread (position_moves r toks s) = search_thread s"
  "stop_event (position_moves r toks s) = stop_event s"
  "last_info_time (position_moves r toks s) = last_info_time s"
  "tracebacks (position_moves r toks s) = tracebacks s"
  "ponder_move (position_moves r toks s) = ponder_move s"
  "search_fn (position_moves r toks s) = search_fn s"
  by (induction toks arbitrary: s; simp add: Let_def split: option.splits pushed.splits)+

lemma cmd_position_fields:
  assumes "cmd_position r args s = Inr s'"
  shows "out s' = out s" "threads s' = threads s" "disp s' = disp s"
    "search_thread s' = search_thread s" "stop_event s' = stop_event s"
    "last_info_time s' = last_info_time s" "tracebacks s' = tracebacks s"
    "ponder_move s' = ponder_move s" "search_fn s' = search_fn s"
  using assms by (auto simp: cmd_position_def split: if_splits option.splits)

lemma cmd_uci_fields [simp]:
  "threads (cmd_uci s) = threads s"
  "disp (cmd_uci s) = disp s"
  "board (cmd_uci s) = board s"
  "options (cmd_uci s) = options s"
  "search_thread (cmd_uci s) = search_thread s"
  "stop_event (cmd_uci s) = stop_event s"
  "last_info_time (cmd_uci s) = last_info_time s"
  "tracebacks (cmd_uci s) = tracebacks s"
  "ponder_move (cmd_uci s) = ponder_move s"
  "search_fn (cmd_uci s) = search_fn s"
  by (simp_all add: cmd_uci_def)

lemma cmd_setoption_fields [simp]:
  "out (cmd_setoption a s) = out s"
  "threads (cmd_setoption a s) = threads s"
  "disp (cmd_setoption a s) = disp s"
  "board (cmd_setoption a s) = board s"
  "search_thread (cmd_setoption a s) = search_thread s"
  "stop_event (cmd_setoption a s) = stop_event s"
  "last_info_time (cmd_setoption a s) = last_info_time s"
  "tracebacks (cmd_setoption a s) = tracebacks s"
  "ponder_move (cmd_setoption a s) = ponder_move s"
  "search_fn (cmd_setoption a s) = search_fn s"
  by (simp_all add: cmd_setoption_def set_option_def split: prod.splits option.splits)

lemma handle_line_closing:
  assumes "disp s = Idle" and "handle_line r l s = Inr s'" and "closing (disp s')"
  shows "\<exists>args. split_ws l = ''quit'' # args"
proof (cases "split_ws l")
  case Nil
  then show ?thesis using assms by (simp add: handle_line_def)
next
  case (Cons cmd args)
  show ?thesis
  proof (rule ccontr)
    assume "\<not> ?thesis"
    then have nq: "cmd \<noteq> ''quit''" using Cons by simp
    have "\<not> closing (disp s')"
      using assms(1,2) Cons nq
      by (auto simp: handle_line_def cmd_isready_def cmd_ucinewgame_def cmd_go_def
            start_search_def cmd_stop_def cmd_ponderhit_def closing_stop_search
            cmd_position_fields(3)
          split: if_splits sum.splits)
    then show False using assms(3) by simp
  qed
qed

lemma recv_closing:
  assumes "disp s = Idle" and "closing (disp (recv r line s))"
  shows "quit_or_eof line"
proof (cases "line = [] \<or> strip line = []")
  case True
  then show ?thesis using assms by (auto simp: recv_def quit_or_eof_def split: if_splits)
next
  case False
  let ?s1 = "logger (''<- '' @ strip line) s"
  show ?thesis
  proof (cases "handle_line r (strip line) ?s1")
    case (Inl e)
    then show ?thesis using assms False by (simp add: recv_def Let_def)
  next
    case (Inr s2)
    then have "recv r line s = s2" using False by (simp add: recv_def Let_def)
    then have "closing (disp s2)" using assms(2) by simp
    from handle_line_closing[OF _ Inr this] assms(1)
    show ?thesis by (auto simp: quit_or_eof_def)
  qed
qed

lemma step_closing:
  assumes "closing (disp (step r e s))"
  shows "closing (disp s) \<or> (\<exists>line. e = Recv line \<and> quit_or_eof line)"
proof (cases e)
  case (Recv line)
  then show ?thesis using assms recv_closing[of s r line] by (auto split: if_splits)
next
  case Joined
  then show ?thesis using assms
    by (auto simp: disp_resume split: dstate.splits if_splits)
next
  case JoinTimeout
  then show ?thesis using assms
    by (auto simp: disp_resume split: dstate.splits if_splits option.splits wstate.splits)
next
  case (Begin t)
  then show ?thesis using assms
    by (auto simp: worker_begin_def worker_except_def finish_def Let_def
          split: option.splits wstate.splits if_splits)
next
  case (Info t now i)
  then show ?thesis using assms
    by (auto simp: info_callback_def send_info_def
          split: option.splits wstate.splits if_splits sum.splits)
next
  case (SetPonder t p)
  then show ?thesis using assms by (auto split: option.splits wstate.splits)
next
  case (Done t res)
  then show ?thesis using assms
    by (auto simp: worker_return_def worker_except_def finish_def
          split: option.splits wstate.splits result.splits)
qed

lemma run_snoc: "run r (evs @ [e]) s = step r e (run r evs s)"
  by (simp add: run_def)

lemma run_closing:
  "closing (disp (run r evs s)) \<Longrightarrow>
     closing (disp s) \<or> (\<exists>line. Recv line \<in> set evs \<and> quit_or_eof line)"
proof (induction evs rule: rev_induct)
  case Nil
  then show ?case by (simp add: run_def)
next
  case (snoc e evs)
  from snoc.prems have "closing (disp (step r e (run r evs s)))" by (simp add: run_snoc)
  from step_closing[OF this] snoc.IH show ?case by auto
qed


lemma init_fields [simp]:
  "disp (init r nm au fn) = Idle"
  "threads (init r nm au fn) = []"
  "out (init r nm au fn) = []"
  "search_thread (init r nm au fn) = None"
  "board (init r nm au fn) = initial r"
  "options (init r nm au fn) = []"
  "tracebacks (init r nm au fn) = 0"
  "ponder_move (init r nm au fn) = None"
  "search_fn (init r nm au fn) = fn"
  "last_info_time (init r nm au fn) = 0"
  by (simp_all add: init_def)

lemma handle_unknown:
  assumes "split_ws l = cmd # args" and "cmd \<notin> set known_commands"
  shows "handle_line r l s = Inr (logger (''Unknown command: '' @ l) s)"
  using assms by (simp add: handle_line_def known_commands_def)

lemma recv_isready: "recv r ''isready'' s = cmd_isready (logger ''<- isready'' s)"
proof -
  have t: "split_ws ''isready'' = [''isready'']" "strip ''isready'' = ''isready''"
    by (simp_all add: text_eval)
  then have "split_ws (strip ''isready'') = ''isready'' # []" by simp
  from recv_tokens[OF this, of r s] show ?thesis by (simp add: t handle_line_def)
qed

text \<open>
  Claim C8. The dispatch loop ends only on \<open>quit\<close> or end of input: whenever the loop
  has ended (or waits for its last join), a \<open>quit\<close> line or the end of input was read.
  A handler that raises has its traceback printed and the loop goes on with the session
  as it was. A line whose first token is none of the nine commands is logged, writes
  nothing to stdout and changes nothing else, the Position included, and a following
  \<open>isready\<close> is answered with \<open>readyok\<close>.
\<close>

theorem dispatch_loop_survives:
  "(closing (disp (run r evs (init r nm au fn)))
      \<longrightarrow> (\<exists>line. Recv line \<in> set evs \<and> quit_or_eof line))
   \<and> (disp s = Idle \<and> strip line \<noteq> []
        \<and> handle_line r (strip line) (logger (''<- '' @ strip line) s) = Inl e
      \<longrightarrow> step r (Recv line) s
            = (logger (''<- '' @ strip line) s)\<lparr> tracebacks := tracebacks s + 1 \<rparr>)
   \<and> (disp s = Idle \<and> split_ws (strip line) = cmd # args \<and> cmd \<notin> set known_commands
      \<longrightarrow> step r (Recv line) s
            = s\<lparr> logged := logged s @ [''<- '' @ strip line, ''Unknown command: '' @ strip line] \<rparr>
        \<and> out (step r (Recv ''isready'') (step r (Recv line) s))
            = out s @ [(Dispatcher, ''readyok'')])"
proof (intro conjI impI)
  assume "closing (disp (run r evs (init r nm au fn)))"
  from run_closing[OF this] show "\<exists>line. Recv line \<in> set evs \<and> quit_or_eof line"
    by simp
next
  assume "disp s = Idle \<and> strip line \<noteq> []
        \<and> handle_line r (strip line) (logger (''<- '' @ strip line) s) = Inl e"
  moreover from this have "line \<noteq> []" using strip_Nil by auto
  ultimately show "step r (Recv line) s
            = (logger (''<- '' @ strip line) s)\<lparr> tracebacks := tracebacks s + 1 \<rparr>"
    by (simp add: recv_def Let_def)
next
  assume a: "disp s = Idle \<and> split_ws (strip line) = cmd # args \<and> cmd \<notin> set known_commands"
  then have tok: "split_ws (strip line) = cmd # args" and unk: "cmd \<notin> set known_commands"
    by simp_all
  show u: "step r (Recv line) s
            = s\<lparr> logged := logged s @ [''<- '' @ strip line, ''Unknown command: '' @ strip line] \<rparr>"
    using a recv_tokens[OF tok, of r s] handle_unknown[OF tok unk, of r]
    by (simp add: logger_def)
  show "out (step r (Recv ''isready'') (step r (Recv line) s)) = out s @ [(Dispatcher, ''readyok'')]"
    unfolding u using a by (simp add: recv_isready cmd_isready_def)
qed

theorem dispatch_loop_survives_witness:
  "closing (disp (run demo_rules [Recv ''isready'', Recv ''quit''] (demo_engine DefaultSearch)))
   \<and> Recv ''quit'' \<in> set [Recv ''isready'', Recv ''quit''] \<and> quit_or_eof ''quit''
   \<and> step demo_rules (Recv ''position fen 8/8 w'') (demo_engine DefaultSearch)
       = (logger ''<- position fen 8/8 w'' (demo_engine DefaultSearch))\<lparr> tracebacks := 1 \<rparr>
   \<and> step demo_rules (Recv ''positoin startpos moves e2e4'') (demo_engine DefaultSearch)
       = (demo_engine DefaultSearch)
           \<lparr> logged := [''<- positoin startpos moves e2e4'',
                         ''Unknown command: positoin startpos moves e2e4''] \<rparr>
   \<and> out (step demo_rules (Recv ''isready'')
            (step demo_rules (Recv ''positoin startpos moves e2e4'') (demo_engine DefaultSearch)))
       = [(Dispatcher, ''readyok'')]"
proof -
  let ?E = "demo_engine DefaultSearch :: string list engine"
  have idle: "disp ?E = Idle" and tb: "tracebacks ?E = 0" and lg: "logged ?E = []"
    and ou: "out ?E = []"
    by (simp_all add: demo_engine_def init_def)
  have c: "closing (disp (run demo_rules [Recv ''isready'', Recv ''quit''] ?E))"
    by (simp add: run_def demo_engine_def recv_isready cmd_isready_def recv_def text_eval
          handle_line_def cmd_quit_def stop_search_def Let_def)
  have q: "quit_or_eof ''quit''" by (simp add: quit_or_eof_def text_eval)
  have f: "strip ''position fen 8/8 w'' \<noteq> []"
     "handle_line demo_rules (strip ''position fen 8/8 w'')
        (logger (''<- '' @ strip ''position fen 8/8 w'') ?E) = Inl ValueError"
    by (simp_all add: text_eval handle_line_def cmd_position_def demo_rules_def)
  have u: "split_ws (strip ''positoin startpos moves e2e4'')
             = ''positoin'' # [''startpos'', ''moves'', ''e2e4'']"
     "''positoin'' \<notin> set known_commands"
    by (simp_all add: text_eval known_commands_def)
  have st: "strip ''positoin startpos moves e2e4'' = ''positoin startpos moves e2e4''"
     "strip ''position fen 8/8 w'' = ''position fen 8/8 w''"
    by (simp_all add: text_eval)
  note T = dispatch_loop_survives[of demo_rules "[]" "[]" "[]" DefaultSearch ?E]
  have A: "step demo_rules (Recv ''position fen 8/8 w'') ?E
       = (logger (''<- '' @ strip ''position fen 8/8 w'') ?E)\<lparr> tracebacks := tracebacks ?E + 1 \<rparr>"
    using T[of "''position fen 8/8 w''" ValueError, THEN conjunct2, THEN conjunct1] idle f
    by blast
  have B: "step demo_rules (Recv ''positoin startpos moves e2e4'') ?E
       = ?E\<lparr> logged := logged ?E @ [''<- '' @ strip ''positoin startpos moves e2e4'',
                         ''Unknown command: '' @ strip ''positoin startpos moves e2e4''] \<rparr>
     \<and> out (step demo_rules (Recv ''isready'')
            (step demo_rules (Recv ''positoin startpos moves e2e4'') ?E))
       = out ?E @ [(Dispatcher, ''readyok'')]"
    using T[of "''positoin startpos moves e2e4''" _ "''positoin''" "[''startpos'', ''moves'', ''e2e4'']",
        THEN conjunct2, THEN conjunct2] idle u
    by blast
  have A': "step demo_rules (Recv ''position fen 8/8 w'') ?E
       = (logger ''<- position fen 8/8 w'' ?E)\<lparr> tracebacks := 1 \<rparr>"
    unfolding A st tb by simp
  have B1: "step demo_rules (Recv ''positoin startpos moves e2e4'') ?E
       = ?E \<lparr> logged := [''<- positoin startpos moves e2e4'',
                         ''Unknown command: positoin startpos moves e2e4''] \<rparr>"
    unfolding B[THEN conjunct1] st lg by simp
  have B2: "out (step demo_rules (Recv ''isready'')
            (step demo_rules (Recv ''positoin startpos moves e2e4'') ?E))
       = [(Dispatcher, ''readyok'')]"
    unfolding B[THEN conjunct2] ou by simp
  show ?thesis using c q A' B1 B2 by (intro conjI) simp_all
qed

section \<open>The info callback\<close>

lemma gapped_mono: "lo' \<le> lo \<Longrightarrow> gapped lo ts \<Longrightarrow> gapped lo' ts"
  by (cases ts) auto

lemma info_callback_cases:
  "(now - last_info_time s < 1 / 20 \<and> info_callback who now i s = s)
   \<or> (last_info_time s + 1 / 20 \<le> now
        \<and> last_info_time (info_callback who now i s) = now
        \<and> (out (info_callback who now i s) = out s
             \<or> (\<exists>l. out (info_callback who now i s) = out s @ [(who, l)])))"
  by (auto simp: info_callback_def send_info_def split: sum.splits)

lemma emit_times_gapped: "gapped (last_info_time s) (emit_times who calls s)"
proof (induction calls arbitrary: s)
  case Nil
  then show ?case by simp
next
  case (Cons c cs)
  let ?s' = "info_callback who (fst c) (snd c) s"
  have IH: "gapped (last_info_time ?s') (emit_times who cs ?s')" by (rule Cons.IH)
  from info_callback_cases[of "fst c" s who "snd c"]
  consider (drop) "info_callback who (fst c) (snd c) s = s"
    | (pass) "last_info_time s + 1 / 20 \<le> fst c" "last_info_time ?s' = fst c"
    by blast
  then show ?case
  proof cases
    case drop
    then show ?thesis using IH by (simp add: Let_def)
  next
    case pass
    then have g: "gapped (fst c) (emit_times who cs ?s')" using IH by simp
    have "gapped (last_info_time s) (emit_times who cs ?s')"
      using gapped_mono[OF _ g, of "last_info_time s"] pass(1) by simp
    then show ?thesis using pass(1) g by (simp add: Let_def)
  qed
qed

lemma gapped_lower: "gapped lo ts \<Longrightarrow> x \<in> set ts \<Longrightarrow> lo + 1 / 20 \<le> x"
proof (induction ts arbitrary: lo)
  case Nil
  then show ?case by simp
next
  case (Cons t ts)
  then show ?case by (cases "x = t") (auto dest: Cons.IH)
qed

lemma gapped_nth:
  "gapped lo ts \<Longrightarrow> a < b \<Longrightarrow> b < length ts \<Longrightarrow> ts ! a + 1 / 20 \<le> ts ! b"
proof (induction ts arbitrary: lo a b)
  case Nil
  then show ?case by simp
next
  case (Cons t ts)
  obtain b' where b: "b = Suc b'" using Cons.prems(2) by (cases b) auto
  show ?case
  proof (cases a)
    case 0
    have "ts ! b' \<in> set ts" using Cons.prems(3) b by simp
    from gapped_lower[OF _ this, of t] Cons.prems(1) show ?thesis using 0 b by simp
  next
    case (Suc a')
    then show ?thesis using Cons.IH[of t a' b'] Cons.prems b by simp
  qed
qed

lemma gapped_span:
  "gapped lo ts \<Longrightarrow> ts \<noteq> [] \<Longrightarrow> hd ts + (of_nat (length ts) - 1) / 20 \<le> last ts"
proof (induction ts arbitrary: lo)
  case Nil
  then show ?case by simp
next
  case (Cons t ts)
  show ?case
  proof (cases ts)
    case Nil
    then show ?thesis by simp
  next
    case (Cons u us)
    with Cons.prems Cons.IH[of t] have "hd ts + (of_nat (length ts) - 1) / 20 \<le> last ts"
      and "t + 1 / 20 \<le> hd ts" by auto
    then show ?thesis using Cons by (simp add: field_simps)
  qed
qed

lemma emit_times_subset: "set (emit_times who calls s) \<subseteq> fst ` set calls"
  by (induction calls arbitrary: s) (auto simp: Let_def)

lemma out_info_callback: "length (out (info_callback who now i s)) \<le> length (out s) + 1"
  using info_callback_cases[of now s who i] by auto

lemma emit_times_count:
  assumes "\<forall>c \<in> set calls. t0 \<le> fst c \<and> fst c \<le> t0 + d" and "0 \<le> d"
  shows "int (length (emit_times who calls s)) \<le> \<lfloor>d * 20\<rfloor> + 1"
proof (cases "emit_times who calls s = []")
  case True
  have "0 \<le> \<lfloor>d * 20\<rfloor>" using assms(2) by simp
  then show ?thesis using True by simp
next
  case False
  let ?ts = "emit_times who calls s"
  have "hd ?ts \<in> set ?ts" "last ?ts \<in> set ?ts" using False by simp_all
  moreover have "t0 \<le> x \<and> x \<le> t0 + d" if "x \<in> set ?ts" for x
  proof -
    from that emit_times_subset[of who calls s] obtain c where "c \<in> set calls" "x = fst c"
      by blast
    then show ?thesis using assms(1) by simp
  qed
  ultimately have "t0 \<le> hd ?ts" "last ?ts \<le> t0 + d" by blast+
  moreover have "hd ?ts + (of_nat (length ?ts) - 1) / 20 \<le> last ?ts"
    using gapped_span[OF emit_times_gapped False] .
  ultimately have "(of_nat (length ?ts) - 1) / 20 \<le> d" by linarith
  then have "of_int (int (length ?ts) - 1) \<le> d * 20" by (simp add: field_simps)
  then have "int (length ?ts) - 1 \<le> \<lfloor>d * 20\<rfloor>" by (simp only: le_floor_iff)
  then show ?thesis by simp
qed

text \<open>
  Claim C7. With \<open>time.time()\<close> read as an exact number of seconds: any two lines the
  info callback emits are at least 50 ms (1/20 s) apart; a call less than 50 ms after the
  last emitting call changes nothing at all, so it is neither queued nor replayed; a call
  writes at most one line; and of any calls that all fall into a span of \<open>d\<close> seconds at
  most \<open>\<lfloor>20 d\<rfloor> + 1\<close> emit a line, however many calls there are.
\<close>

theorem info_throttle:
  "(\<forall>a b. a < b \<and> b < length (emit_times who calls s)
       \<longrightarrow> emit_times who calls s ! a + 1 / 20 \<le> emit_times who calls s ! b)
   \<and> (now - last_info_time s < 1 / 20 \<longrightarrow> info_callback who now i s = s)
   \<and> length (out (info_callback who now i s)) \<le> length (out s) + 1
   \<and> ((\<forall>c \<in> set calls. t0 \<le> fst c \<and> fst c \<le> t0 + d) \<and> 0 \<le> d
       \<longrightarrow> int (length (emit_times who calls s)) \<le> \<lfloor>d * 20\<rfloor> + 1)"
proof (intro conjI allI impI)
  fix a b assume "a < b \<and> b < length (emit_times who calls s)"
  then show "emit_times who calls s ! a + 1 / 20 \<le> emit_times who calls s ! b"
    using gapped_nth[OF emit_times_gapped, of a b who calls s] by simp
next
  assume "now - last_info_time s < 1 / 20"
  then show "info_callback who now i s = s" by (simp add: info_callback_def)
next
  show "length (out (info_callback who now i s)) \<le> length (out s) + 1"
    by (rule out_info_callback)
next
  assume "(\<forall>c \<in> set calls. t0 \<le> fst c \<and> fst c \<le> t0 + d) \<and> 0 \<le> d"
  then show "int (length (emit_times who calls s)) \<le> \<lfloor>d * 20\<rfloor> + 1"
    using emit_times_count[of calls t0 d who s] by simp
qed


lemmas info_eval = info_callback_def send_info_def info_line_def key_part_def score_part_def
  pv_part_def show_int_def show_nat.simps demo_info_def

theorem info_throttle_witness:
  "emit_times (Worker 0) [(100, demo_info), (100 + 1 / 100, demo_info), (100 + 3 / 50, demo_info)]
      (demo_engine (External 4 4)) = [100, 100 + 3 / 50]
   \<and> (100 :: rat) + 1 / 20 \<le> 100 + 3 / 50
   \<and> info_callback (Worker 0) (1 / 100) demo_info (demo_engine (External 4 4))
       = demo_engine (External 4 4)
   \<and> out (info_callback (Worker 0) 100 demo_info (demo_engine (External 4 4)))
       = [(Worker 0, ''info depth 1 nodes 1 pv e2e4 time 0'')]
   \<and> int (length (emit_times (Worker 0)
         [(100, demo_info), (100 + 1 / 400, demo_info), (100 + 1 / 200, demo_info),
          (100 + 1 / 100, demo_info)] (demo_engine (External 4 4)))) \<le> 1"
proof -
  let ?E = "demo_engine (External 4 4) :: string list engine"
  let ?calls = "[(100, demo_info), (100 + 1 / 100, demo_info), (100 + 3 / 50, demo_info)]"
  let ?burst = "[(100, demo_info), (100 + 1 / 400, demo_info), (100 + 1 / 200, demo_info),
          (100 + 1 / 100, demo_info)]"
  have E: "last_info_time ?E = 0" "out ?E = []" by (simp_all add: demo_engine_def init_def)
  have ts: "emit_times (Worker 0) ?calls ?E = [100, 100 + 3 / 50]"
    by (simp add: info_eval Let_def E)
  note T = info_throttle[of "Worker 0" ?calls ?E "1 / 100" demo_info 100 "1 / 100"]
  have gap: "emit_times (Worker 0) ?calls ?E ! 0 + 1 / 20 \<le> emit_times (Worker 0) ?calls ?E ! 1"
    using T[THEN conjunct1, rule_format, of 0 1] ts by simp
  have "1 / 100 - last_info_time ?E < 1 / 20" by (simp add: E)
  with T have dropped: "info_callback (Worker 0) (1 / 100) demo_info ?E = ?E" by blast
  have sent: "out (info_callback (Worker 0) 100 demo_info ?E)
       = [(Worker 0, ''info depth 1 nodes 1 pv e2e4 time 0'')]"
    by (simp add: info_eval E)
  have rng: "(\<forall>c \<in> set ?burst. (100 :: rat) \<le> fst c \<and> fst c \<le> 100 + 1 / 100) \<and> (0 :: rat) \<le> 1 / 100"
    by simp
  have fl: "\<lfloor>(1 / 100 :: rat) * 20\<rfloor> = 0" by (rule floor_unique) simp_all
  have "int (length (emit_times (Worker 0) ?burst ?E)) \<le> \<lfloor>(1 / 100 :: rat) * 20\<rfloor> + 1"
    using info_throttle[of "Worker 0" ?burst ?E 0 demo_info 100 "1 / 100",
        THEN conjunct2, THEN conjunct2, THEN conjunct2] rng by blast
  then have count: "int (length (emit_times (Worker 0) ?burst ?E)) \<le> 1"
    unfolding fl by simp
  show ?thesis using ts gap dropped sent count by simp
qed

section \<open>Search jobs\<close>

lemma bestmoves_append [simp]: "bestmoves t (a @ b) = bestmoves t a + bestmoves t b"
  by (simp add: bestmoves_def)

lemma bestmoves_Nil [simp]: "bestmoves t [] = 0"
  by (simp add: bestmoves_def)

lemma bestmoves_dispatcher [simp]: "bestmoves t (map (Pair Dispatcher) ls) = 0"
  by (induction ls) (simp_all add: bestmoves_def)

lemma bestmoves_single:
  "bestmoves t [(Worker u, l)] = (if u = t \<and> is_bestmove l then 1 else 0)"
  by (simp add: bestmoves_def)

lemma is_bestmove_line [simp]: "is_bestmove (bestmove_line bp)"
  by (simp add: is_bestmove_def bestmove_line_def)

lemma is_bestmove_prefix [simp]: "is_bestmove (''bestmove '' @ x)"
  by (simp add: is_bestmove_def)

lemma join_with_Cons: "\<exists>rest. join_with sep (x # xs) = x @ rest"
  by (cases xs) auto

lemma info_line_not_bestmove:
  assumes "info_line i = Inr l"
  shows "\<not> is_bestmove l"
proof -
  from assms obtain ps where "l = join_with '' '' (''info'' # ps)"
    by (auto simp: info_line_def Let_def split: option.splits millis.splits)
  then obtain rest where "l = ''info'' @ rest" using join_with_Cons by metis
  then show ?thesis by (simp add: is_bestmove_def)
qed

lemma thread_state_threads: "threads s' = threads s \<Longrightarrow> thread_state s' t = thread_state s t"
  by (simp add: thread_state_def)

lemma thread_state_update:
  "threads s' = (threads s)[t := w] \<Longrightarrow>
   thread_state s' u = (if u = t \<and> t < length (threads s) then Some w else thread_state s u)"
  by (auto simp: thread_state_def)

lemma thread_state_spawn:
  "threads s' = threads s @ [Created l] \<Longrightarrow>
   (thread_state s' u = Some Finished) = (thread_state s u = Some Finished)"
  by (auto simp: thread_state_def nth_append)

lemma resume_threads:
  "threads (resume k s) = threads s \<or> (\<exists>l. threads (resume k s) = threads s @ [Created l])"
  by (cases k) simp_all

lemma stop_search_threads:
  "threads (stop_search k s) = threads s \<or> (\<exists>l. threads (stop_search k s) = threads s @ [Created l])"
  using resume_threads[of k "s\<lparr> stop_event := True, search_thread := None \<rparr>"]
  by (auto simp: stop_search_def Let_def split: option.splits)

lemma finished_resume [simp]:
  "(thread_state (resume k s) u = Some Finished) = (thread_state s u = Some Finished)"
  using resume_threads[of k s] thread_state_spawn thread_state_threads by metis

lemma finished_stop_search [simp]:
  "(thread_state (stop_search k s) u = Some Finished) = (thread_state s u = Some Finished)"
  using stop_search_threads[of k s] thread_state_spawn thread_state_threads by metis


lemma thread_state_upd [simp]:
  "thread_state (s\<lparr> board := b \<rparr>) = thread_state s"
  "thread_state (s\<lparr> stop_event := e \<rparr>) = thread_state s"
  "thread_state (s\<lparr> ponder := p \<rparr>) = thread_state s"
  "thread_state (s\<lparr> ponder_move := pm \<rparr>) = thread_state s"
  "thread_state (s\<lparr> options := os \<rparr>) = thread_state s"
  "thread_state (s\<lparr> logged := lg \<rparr>) = thread_state s"
  "thread_state (s\<lparr> out := ou \<rparr>) = thread_state s"
  "thread_state (s\<lparr> tracebacks := tb \<rparr>) = thread_state s"
  "thread_state (s\<lparr> last_info_time := lt \<rparr>) = thread_state s"
  "thread_state (s\<lparr> search_thread := st \<rparr>) = thread_state s"
  "thread_state (s\<lparr> disp := d \<rparr>) = thread_state s"
  by (simp_all add: thread_state_def fun_eq_iff)

lemma thread_state_same [simp]:
  "thread_state (send w l s) = thread_state s"
  "thread_state (logger m s) = thread_state s"
  "thread_state (cmd_uci s) = thread_state s"
  "thread_state (cmd_setoption a s) = thread_state s"
  "thread_state (position_moves r toks s) = thread_state s"
  by (simp_all add: thread_state_def fun_eq_iff)

lemma handle_line_frame:
  assumes "handle_line r l s = Inr s'"
  shows "(\<exists>ls. out s' = out s @ map (Pair Dispatcher) ls)
       \<and> (thread_state s' u = Some Finished) = (thread_state s u = Some Finished)"
proof -
  define P where "P = (\<lambda>x :: 'a engine. (\<exists>ls. out x = out s @ map (Pair Dispatcher) ls)
       \<and> (thread_state x u = Some Finished) = (thread_state s u = Some Finished))"
  have same: "P x" if "out x = out s"
    and "(thread_state x u = Some Finished) = (thread_state s u = Some Finished)" for x
    unfolding P_def using that by (intro conjI exI[of _ "[]"]) simp_all
  have uci: "P (cmd_uci s)"
    unfolding P_def
  proof (intro conjI)
    show "\<exists>ls. out (cmd_uci s) = out s @ map (Pair Dispatcher) ls"
      by (rule exI) (rule cmd_uci_out)
    show "(thread_state (cmd_uci s) u = Some Finished) = (thread_state s u = Some Finished)"
      by simp
  qed
  have rdy: "P (cmd_isready s)"
    unfolding P_def
    by (intro conjI exI[of _ "[''readyok'']"]) (simp_all add: cmd_isready_def)
  have setoption: "P (cmd_setoption a s)" for a
    by (rule same) simp_all
  have newgame: "P (cmd_ucinewgame r s)"
    by (rule same) (simp_all add: cmd_ucinewgame_def)
  have position: "P x" if "cmd_position r a s = Inr x" for a x
    by (rule same) (simp_all add: thread_state_def cmd_position_fields(1,2)[OF that])
  have go: "P x" if "cmd_go r a s = Inr x" for a x
    using that by (intro same) (auto simp: cmd_go_def start_search_def split: sum.splits)
  have stop: "P (cmd_stop s)"
    by (rule same) (simp_all add: cmd_stop_def)
  have ponderhit: "P (cmd_ponderhit s)"
    by (rule same) (simp_all add: cmd_ponderhit_def)
  have quit: "P (cmd_quit s)"
    by (rule same) (simp_all add: cmd_quit_def)
  have unknown: "P (logger m s)" for m
    by (rule same) simp_all
  have "P s'"
  proof (cases "split_ws l")
    case Nil
    then show ?thesis using assms by (simp add: handle_line_def)
  next
    case (Cons cmd args)
    then show ?thesis
      using assms uci rdy setoption newgame position go stop ponderhit quit unknown
      by (auto simp: handle_line_def split: if_splits)
  qed
  then show ?thesis unfolding P_def .
qed

lemma recv_frame:
  "(\<exists>ls. out (recv r line s) = out s @ map (Pair Dispatcher) ls)
   \<and> (thread_state (recv r line s) u = Some Finished) = (thread_state s u = Some Finished)"
proof -
  let ?s1 = "logger (''<- '' @ strip line) s"
  have same: "out s' = out s \<Longrightarrow> \<exists>ls. out s' = out s @ map (Pair Dispatcher) ls" for s' :: "'a engine"
    by (rule exI[of _ "[]"]) simp
  show ?thesis
  proof (cases "line = []")
    case True
    then have "recv r line s = stop_search KEof s" by (simp add: recv_def)
    then show ?thesis using same[of "recv r line s"] by simp
  next
    case ne: False
    show ?thesis
    proof (cases "strip line = []")
      case True
      then have "recv r line s = s" using ne by (simp add: recv_def)
      then show ?thesis using same[of "recv r line s"] by simp
    next
      case False
      show ?thesis
      proof (cases "handle_line r (strip line) ?s1")
        case (Inl e)
        then have "recv r line s = ?s1\<lparr> tracebacks := tracebacks ?s1 + 1 \<rparr>"
          using ne False by (simp add: recv_def Let_def)
        then show ?thesis using same[of "recv r line s"] by simp
      next
        case (Inr s2)
        then have "recv r line s = s2" using ne False by (simp add: recv_def Let_def)
        with handle_line_frame[OF Inr, of u] show ?thesis by simp
      qed
    qed
  qed
qed


lemma finish_fields [simp]:
  "out (finish t s) = out s"
  "logged (finish t s) = logged s"
  "threads (finish t s) = (threads s)[t := Finished]"
  "disp (finish t s) = disp s"
  "board (finish t s) = board s"
  "options (finish t s) = options s"
  "search_thread (finish t s) = search_thread s"
  "stop_event (finish t s) = stop_event s"
  "last_info_time (finish t s) = last_info_time s"
  "tracebacks (finish t s) = tracebacks s"
  "ponder_move (finish t s) = ponder_move s"
  "search_fn (finish t s) = search_fn s"
  by (simp_all add: finish_def)

lemma thread_state_finish:
  "thread_state (finish t s) u
     = (if u = t \<and> t < length (threads s) then Some Finished else thread_state s u)"
  by (auto simp: thread_state_def)

lemma worker_except_effect:
  "out (worker_except r t s) = out s @ [(Worker t, ''bestmove '' @ fallback r (board s))]"
  "tracebacks (worker_except r t s) = tracebacks s + 1"
  "thread_state (worker_except r t s) u
     = (if u = t \<and> t < length (threads s) then Some Finished else thread_state s u)"
  "disp (worker_except r t s) = disp s"
  "search_thread (worker_except r t s) = search_thread s"
  "board (worker_except r t s) = board s"
  by (simp_all add: worker_except_def thread_state_finish)

lemma worker_return_effect:
  "out (worker_return r t v s) = out s @ [(Worker t, bestmove_line (best_and_ponder r v s))]"
  "tracebacks (worker_return r t v s) = tracebacks s"
  "thread_state (worker_return r t v s) u
     = (if u = t \<and> t < length (threads s) then Some Finished else thread_state s u)"
  "disp (worker_return r t v s) = disp s"
  "search_thread (worker_return r t v s) = search_thread s"
  "board (worker_return r t v s) = board s"
  by (simp_all add: worker_return_def thread_state_finish)

lemma info_callback_effect:
  "thread_state (info_callback w now i s) = thread_state s"
  "disp (info_callback w now i s) = disp s"
  "search_thread (info_callback w now i s) = search_thread s"
  "board (info_callback w now i s) = board s"
  "out (info_callback w now i s) = out s
     \<or> (\<exists>l. \<not> is_bestmove l \<and> out (info_callback w now i s) = out s @ [(w, l)])"
  by (auto simp: info_callback_def send_info_def fun_eq_iff thread_state_def
        info_line_not_bestmove split: sum.splits)

lemma thread_state_Some: "thread_state s t = Some w \<Longrightarrow> t < length (threads s) \<and> threads s ! t = w"
  by (auto simp: thread_state_def split: if_splits)

lemma counted_dispatcher:
  assumes "counted s" and "\<exists>ls. out s' = out s @ map (Pair Dispatcher) ls"
    and "\<And>u. (thread_state s' u = Some Finished) = (thread_state s u = Some Finished)"
  shows "counted s'"
  using assms by (auto simp: counted_def)

lemma counted_finishing:
  assumes "counted s" and "thread_state s t = Some w" and "w \<noteq> Finished"
    and "is_bestmove l" and "out s' = out s @ [(Worker t, l)]"
    and "\<And>u. thread_state s' u
            = (if u = t \<and> t < length (threads s) then Some Finished else thread_state s u)"
  shows "counted s'"
proof -
  have t: "t < length (threads s)" using assms(2) thread_state_Some by blast
  have "bestmoves t (out s) = 0" using assms(1,2,3) by (simp add: counted_def)
  then show ?thesis using assms t by (auto simp: counted_def bestmoves_single)
qed

lemma step_counted:
  assumes "counted s"
  shows "counted (step r e s)"
proof (cases e)
  case (Recv line)
  show ?thesis
  proof (cases "disp s = Idle")
    case True
    then have "step r e s = recv r line s" using Recv by simp
    then show ?thesis using counted_dispatcher[OF assms, of "recv r line s"] recv_frame[of r line s]
      by simp
  next
    case False
    then show ?thesis using Recv assms by simp
  qed
next
  case Joined
  have "counted (resume k s)" for k
    by (rule counted_dispatcher[OF assms]) (simp_all add: exI[of _ "[]"])
  then show ?thesis using Joined assms by (simp split: dstate.splits)
next
  case JoinTimeout
  have "counted (resume k s)" for k
    by (rule counted_dispatcher[OF assms]) (simp_all add: exI[of _ "[]"])
  then show ?thesis using JoinTimeout assms by (simp split: dstate.splits option.splits wstate.splits)
next
  case (Begin t)
  show ?thesis
  proof (cases "thread_state s t")
    case None
    then show ?thesis using Begin assms by simp
  next
    case (Some w)
    show ?thesis
    proof (cases w)
      case (Created lms)
      have ex: "counted (worker_except r t s)"
        by (rule counted_finishing[OF assms Some, of "''bestmove '' @ fallback r (board s)"])
           (simp_all add: Created worker_except_effect is_bestmove_def)
      have ts: "thread_state (s\<lparr> threads := (threads s)[t := Running a] \<rparr>) u
          = (if u = t \<and> t < length (threads s) then Some (Running a) else thread_state s u)" for u a
        by (rule thread_state_update) simp
      have run: "counted (s\<lparr> threads := (threads s)[t := Running a] \<rparr>)" for a
        using assms Some Created
        by (auto simp: counted_def ts)
      show ?thesis using Begin Some Created ex run by (simp add: worker_begin_def Let_def)
    next
      case (Running a)
      then show ?thesis using Begin Some assms by simp
    next
      case Finished
      then show ?thesis using Begin Some assms by simp
    qed
  qed
next
  case (Info t now i)
  have "counted (info_callback (Worker t) now i s)"
    using assms info_callback_effect(5)[of "Worker t" now i s]
    by (auto simp: counted_def info_callback_effect(1) bestmoves_single)
  then show ?thesis using Info assms by (simp split: option.splits wstate.splits)
next
  case (SetPonder t p)
  have "counted (s\<lparr> ponder_move := p \<rparr>)" using assms by (simp add: counted_def)
  then show ?thesis using SetPonder assms by (simp split: option.splits wstate.splits)
next
  case (Done t res)
  show ?thesis
  proof (cases "thread_state s t")
    case None
    then show ?thesis using Done assms by simp
  next
    case (Some w)
    show ?thesis
    proof (cases w)
      case (Created lms)
      then show ?thesis using Done Some assms by simp
    next
      case (Running a)
      have ex: "counted (worker_except r t s)"
        by (rule counted_finishing[OF assms Some, of "''bestmove '' @ fallback r (board s)"])
           (simp_all add: Running worker_except_effect is_bestmove_def)
      have ret: "counted (worker_return r t v s)" for v
        by (rule counted_finishing[OF assms Some, of "bestmove_line (best_and_ponder r v s)"])
           (simp_all add: Running worker_return_effect)
      show ?thesis using Done Some Running ex ret by (simp split: result.splits)
    next
      case Finished
      then show ?thesis using Done Some assms by simp
    qed
  qed
qed

lemma run_counted: "counted s \<Longrightarrow> counted (run r evs s)"
proof (induction evs rule: rev_induct)
  case Nil
  then show ?case by (simp add: run_def)
next
  case (snoc e evs)
  then show ?case by (simp add: run_snoc step_counted)
qed

lemma counted_init: "counted (init r nm au fn)"
  by (simp add: counted_def thread_state_def)

lemmas run_eval = run_def recv_def handle_line_def text_eval cmd_go_def parse_go_def go_keys_def
  go_value_def py_int_def is_digit_def digit_val_def to_seconds_def side_time_def dict_get_def
  start_search_def stop_search_def Let_def thread_state_def worker_begin_def search_args_def
  accepts_def worker_except_def worker_return_def finish_def fallback_def best_and_ponder_def
  bestmove_line_def truthy_def send_def logger_def demo_rules_def demo_engine_def init_def
  info_eval cmd_position_def cmd_ucinewgame_def cmd_stop_def cmd_quit_def cmd_isready_def

lemma parse_go_logger: "parse_go r args (logger m s) = parse_go r args s"
  by (simp add: parse_go_def Let_def)

text \<open>
  Claim C1. In every run of the engine, every search job that has finished has written
  exactly one bestmove line, and a job that has not finished has written none. A \<open>go\<close>
  that finds no tracked worker spawns exactly one job and writes nothing itself. When
  the call of the Strategy raises at once (no Strategy was given, so
  \<open>_default_search_fn\<close> raises \<open>NotImplementedError\<close>, or the callable does not accept
  the four arguments, a \<open>TypeError\<close>), the exception is caught in the worker: a traceback
  is printed, the one line written is \<open>bestmove\<close> followed by the fallback move, and the
  job is finished. When the Strategy accepts the call, nothing is written until it ends.
  When a running Strategy returns or raises, the worker writes exactly one line, a
  bestmove line, and is finished; when it raises, a traceback is printed and the line is
  \<open>bestmove\<close> followed by the fallback move. (A Strategy call is an event of the model
  when it ends, by returning a value or by raising an \<open>Exception\<close>; writes to stdout are
  taken to succeed.)
\<close>

theorem one_bestmove_per_job:
  "bestmoves t (out (run r evs (init r nm au fn)))
       = (if thread_state (run r evs (init r nm au fn)) t = Some Finished then 1 else 0)
   \<and> (thread_state s t = Some (Running a)
        \<longrightarrow> (\<exists>l. is_bestmove l \<and> out (step r (Done t res) s) = out s @ [(Worker t, l)])
          \<and> thread_state (step r (Done t res) s) t = Some Finished)
   \<and> (thread_state s t = Some (Running a)
        \<longrightarrow> out (step r (Done t Raised) s)
              = out s @ [(Worker t, ''bestmove '' @ fallback r (board s))]
          \<and> tracebacks (step r (Done t Raised) s) = tracebacks s + 1)
   \<and> (thread_state s t = Some (Created lms)
          \<and> (search_fn s = DefaultSearch \<or> \<not> accepts (search_fn s) 4)
        \<longrightarrow> out (step r (Begin t) s)
              = out s @ [(Worker t, ''bestmove '' @ fallback r (board s))]
          \<and> tracebacks (step r (Begin t) s) = tracebacks s + 1
          \<and> thread_state (step r (Begin t) s) t = Some Finished)
   \<and> (thread_state s t = Some (Created lms)
          \<and> search_fn s \<noteq> DefaultSearch \<and> accepts (search_fn s) 4
        \<longrightarrow> out (step r (Begin t) s) = out s
          \<and> tracebacks (step r (Begin t) s) = tracebacks s
          \<and> thread_state (step r (Begin t) s) t = Some (Running (search_args (board s) lms)))
   \<and> (disp s = Idle \<and> search_thread s = None \<and> split_ws (strip line) = ''go'' # args
          \<and> parse_go r args s = Inr lms
        \<longrightarrow> threads (step r (Recv line) s) = threads s @ [Created lms]
          \<and> search_thread (step r (Recv line) s) = Some (length (threads s))
          \<and> out (step r (Recv line) s) = out s)"
proof (intro conjI impI)
  have "counted (run r evs (init r nm au fn))"
    by (rule run_counted) (rule counted_init)
  then show "bestmoves t (out (run r evs (init r nm au fn)))
       = (if thread_state (run r evs (init r nm au fn)) t = Some Finished then 1 else 0)"
    by (simp add: counted_def)
next
  assume run: "thread_state s t = Some (Running a)"
  then have t: "t < length (threads s)" using thread_state_Some by blast
  show "\<exists>l. is_bestmove l \<and> out (step r (Done t res) s) = out s @ [(Worker t, l)]"
  proof (cases res)
    case (Returned v)
    then show ?thesis using run
      by (intro exI[of _ "bestmove_line (best_and_ponder r v s)"]) (simp add: worker_return_effect)
  next
    case Raised
    then show ?thesis using run
      by (intro exI[of _ "''bestmove '' @ fallback r (board s)"])
         (simp add: worker_except_effect is_bestmove_def)
  qed
  show "thread_state (step r (Done t res) s) t = Some Finished"
    using run t by (cases res) (simp_all add: worker_return_effect worker_except_effect)
  show "out (step r (Done t Raised) s) = out s @ [(Worker t, ''bestmove '' @ fallback r (board s))]"
    using run by (simp add: worker_except_effect)
  show "tracebacks (step r (Done t Raised) s) = tracebacks s + 1"
    using run by (simp add: worker_except_effect)
next
  assume a: "thread_state s t = Some (Created lms)
          \<and> (search_fn s = DefaultSearch \<or> \<not> accepts (search_fn s) 4)"
  then have t: "t < length (threads s)" using thread_state_Some by blast
  have len: "length (search_args (board s) lms) = 4" by (simp add: search_args_def)
  have st: "step r (Begin t) s = worker_except r t s"
    using a by (auto simp: worker_begin_def Let_def len)
  show "out (step r (Begin t) s) = out s @ [(Worker t, ''bestmove '' @ fallback r (board s))]"
    "tracebacks (step r (Begin t) s) = tracebacks s + 1"
    "thread_state (step r (Begin t) s) t = Some Finished"
    unfolding st using t by (simp_all add: worker_except_effect)
next
  assume a: "thread_state s t = Some (Created lms)
          \<and> search_fn s \<noteq> DefaultSearch \<and> accepts (search_fn s) 4"
  then have t: "t < length (threads s)" using thread_state_Some by blast
  have len: "length (search_args (board s) lms) = 4" by (simp add: search_args_def)
  have st: "step r (Begin t) s = s\<lparr> threads := (threads s)[t := Running (search_args (board s) lms)] \<rparr>"
    using a by (simp add: worker_begin_def Let_def len)
  show "out (step r (Begin t) s) = out s"
    "tracebacks (step r (Begin t) s) = tracebacks s"
    "thread_state (step r (Begin t) s) t = Some (Running (search_args (board s) lms))"
    unfolding st using t by (simp_all add: thread_state_def)
next
  assume a: "disp s = Idle \<and> search_thread s = None \<and> split_ws (strip line) = ''go'' # args
          \<and> parse_go r args s = Inr lms"
  then have tok: "split_ws (strip line) = ''go'' # args" by simp
  let ?s1 = "logger (''<- '' @ strip line) s"
  have "handle_line r (strip line) ?s1
          = Inr (stop_search (KStart lms) (?s1\<lparr> ponder := (dict_get lms ''ponder'' \<noteq> None) \<rparr>))"
    using a by (simp add: handle_line_def cmd_go_def parse_go_logger start_search_def)
  then have st: "step r (Recv line) s
          = stop_search (KStart lms) (?s1\<lparr> ponder := (dict_get lms ''ponder'' \<noteq> None) \<rparr>)"
    using a recv_tokens[OF tok, of r s] by simp
  show "threads (step r (Recv line) s) = threads s @ [Created lms]"
    "search_thread (step r (Recv line) s) = Some (length (threads s))"
    "out (step r (Recv line) s) = out s"
    unfolding st using a by (simp_all add: stop_search_def Let_def)
qed


theorem one_bestmove_per_job_witness:
  "bestmoves 0 (out (run demo_rules
        [Recv ''go movetime 100'', Begin 0, Info 0 100 demo_info, Done 0 Raised]
        (demo_engine (External 4 4)))) = 1
   \<and> out (run demo_rules
        [Recv ''go movetime 100'', Begin 0, Info 0 100 demo_info, Done 0 Raised]
        (demo_engine (External 4 4)))
      = [(Worker 0, ''info depth 1 nodes 1 pv e2e4 time 0''), (Worker 0, ''bestmove g1h3'')]
   \<and> thread_state (run demo_rules [Recv ''go movetime 100'', Begin 0] (demo_engine (External 4 4))) 0
      = Some (Running (search_args [] [(''movetime'', LInt 100), (''time'', LSeconds 100)]))
   \<and> out (step demo_rules (Done 0 Raised)
            (run demo_rules [Recv ''go movetime 100'', Begin 0] (demo_engine (External 4 4))))
      = [(Worker 0, ''bestmove g1h3'')]
   \<and> tracebacks (step demo_rules (Done 0 Raised)
            (run demo_rules [Recv ''go movetime 100'', Begin 0] (demo_engine (External 4 4)))) = 1
   \<and> bestmoves 0 (out (run demo_rules [Recv ''go'', Begin 0] (demo_engine DefaultSearch))) = 1
   \<and> thread_state (run demo_rules [Recv ''go''] (demo_engine DefaultSearch)) 0 = Some (Created [])
   \<and> out (step demo_rules (Begin 0) (run demo_rules [Recv ''go''] (demo_engine DefaultSearch)))
      = [(Worker 0, ''bestmove g1h3'')]
   \<and> tracebacks (step demo_rules (Begin 0) (run demo_rules [Recv ''go''] (demo_engine DefaultSearch)))
      = 1
   \<and> thread_state (step demo_rules (Begin 0) (run demo_rules [Recv ''go''] (demo_engine DefaultSearch))) 0
      = Some Finished
   \<and> accepts (search_fn (step demo_rules (Recv ''go'') registered_engine)) 4 = False
   \<and> out (step demo_rules (Begin 0) (step demo_rules (Recv ''go'') registered_engine))
      = [(Worker 0, ''bestmove g1h3'')]
   \<and> thread_state (step demo_rules (Begin 0) (step demo_rules (Recv ''go'') registered_engine)) 0
      = Some Finished
   \<and> out (step demo_rules (Begin 0)
            (run demo_rules [Recv ''go movetime 100''] (demo_engine (External 4 4)))) = []
   \<and> threads (step demo_rules (Recv ''go movetime 100'') (demo_engine (External 4 4)))
      = [Created [(''movetime'', LInt 100), (''time'', LSeconds 100)]]"
proof -
  let ?E = "demo_engine (External 4 4) :: string list engine"
  let ?D = "demo_engine DefaultSearch :: string list engine"
  let ?evs = "[Recv ''go movetime 100'', Begin 0, Info 0 100 demo_info, Done 0 Raised]"
  let ?s = "run demo_rules [Recv ''go movetime 100'', Begin 0] ?E"
  let ?c = "run demo_rules [Recv ''go movetime 100''] ?E"
  let ?d = "run demo_rules [Recv ''go''] ?D"
  let ?g = "step demo_rules (Recv ''go'') registered_engine"
  let ?l = "[(''movetime'', LInt 100), (''time'', LSeconds 100)]"
  let ?a = "search_args ([] :: string list) ?l"
  note T = one_bestmove_per_job[where r = demo_rules and nm = "''MinimalPyUCI''"
      and au = "''ciaranmcguinness''", folded demo_engine_def]
  \<comment> \<open>a Strategy that raises after it has reported\<close>
  have fin: "thread_state (run demo_rules ?evs ?E) 0 = Some Finished"
    by (simp add: run_eval)
  have ou: "out (run demo_rules ?evs ?E)
      = [(Worker 0, ''info depth 1 nodes 1 pv e2e4 time 0''), (Worker 0, ''bestmove g1h3'')]"
    by (simp add: run_eval)
  have run: "thread_state ?s 0 = Some (Running ?a)"
    by (simp add: run_eval)
  have s: "out ?s = []" "tracebacks ?s = 0" "fallback demo_rules (board ?s) = ''g1h3''"
    by (simp_all add: run_eval)
  have one: "bestmoves 0 (out (run demo_rules ?evs ?E)) = 1"
    using T[where fn = "External 4 4" and evs = ?evs and t = 0, THEN conjunct1] fin by simp
  have "out (step demo_rules (Done 0 Raised) ?s)
              = out ?s @ [(Worker 0, ''bestmove '' @ fallback demo_rules (board ?s))]
          \<and> tracebacks (step demo_rules (Done 0 Raised) ?s) = tracebacks ?s + 1"
    using T[where s = ?s and t = 0 and a = ?a,
        THEN conjunct2, THEN conjunct2, THEN conjunct1] run by blast
  then have rdone: "out (step demo_rules (Done 0 Raised) ?s) = [(Worker 0, ''bestmove g1h3'')]"
    "tracebacks (step demo_rules (Done 0 Raised) ?s) = 1"
    unfolding s by simp_all
  \<comment> \<open>no Strategy given: the call itself raises\<close>
  have dfin: "thread_state (run demo_rules [Recv ''go'', Begin 0] ?D) 0 = Some Finished"
    by (simp add: run_eval)
  have dflt: "bestmoves 0 (out (run demo_rules [Recv ''go'', Begin 0] ?D)) = 1"
    using T[where fn = DefaultSearch and evs = "[Recv ''go'', Begin 0]" and t = 0, THEN conjunct1]
      dfin by simp
  have d: "thread_state ?d 0 = Some (Created [])" "search_fn ?d = DefaultSearch"
    "out ?d = []" "tracebacks ?d = 0" "fallback demo_rules (board ?d) = ''g1h3''"
    by (simp_all add: run_eval)
  have "out (step demo_rules (Begin 0) ?d)
              = out ?d @ [(Worker 0, ''bestmove '' @ fallback demo_rules (board ?d))]
          \<and> tracebacks (step demo_rules (Begin 0) ?d) = tracebacks ?d + 1
          \<and> thread_state (step demo_rules (Begin 0) ?d) 0 = Some Finished"
    using T[where s = ?d and t = 0 and lms = "[]",
        THEN conjunct2, THEN conjunct2, THEN conjunct2, THEN conjunct1] d(1,2) by blast
  then have beg: "out (step demo_rules (Begin 0) ?d) = [(Worker 0, ''bestmove g1h3'')]"
    "tracebacks (step demo_rules (Begin 0) ?d) = 1"
    "thread_state (step demo_rules (Begin 0) ?d) 0 = Some Finished"
    unfolding d by simp_all
  \<comment> \<open>a Strategy with five required parameters: the call raises\<close>
  have g: "thread_state ?g 0 = Some (Created [])" "accepts (search_fn ?g) 4 = False"
    "out ?g = []" "fallback demo_rules (board ?g) = ''g1h3''"
    by (simp_all add: run_eval registered_engine_def)
  have "out (step demo_rules (Begin 0) ?g)
              = out ?g @ [(Worker 0, ''bestmove '' @ fallback demo_rules (board ?g))]
          \<and> tracebacks (step demo_rules (Begin 0) ?g) = tracebacks ?g + 1
          \<and> thread_state (step demo_rules (Begin 0) ?g) 0 = Some Finished"
    using T[where s = ?g and t = 0 and lms = "[]",
        THEN conjunct2, THEN conjunct2, THEN conjunct2, THEN conjunct1] g(1,2) by blast
  then have five: "out (step demo_rules (Begin 0) ?g) = [(Worker 0, ''bestmove g1h3'')]"
    "thread_state (step demo_rules (Begin 0) ?g) 0 = Some Finished"
    unfolding g by simp_all
  \<comment> \<open>a Strategy that accepts the call: nothing is written before it ends\<close>
  have c: "thread_state ?c 0 = Some (Created ?l)
      \<and> search_fn ?c \<noteq> DefaultSearch \<and> accepts (search_fn ?c) 4" "out ?c = []"
    by (simp_all add: run_eval)
  have "out (step demo_rules (Begin 0) ?c) = out ?c"
    using T[where s = ?c and t = 0 and lms = ?l,
        THEN conjunct2, THEN conjunct2, THEN conjunct2, THEN conjunct2, THEN conjunct1] c(1)
    by blast
  then have quiet: "out (step demo_rules (Begin 0) ?c) = []" unfolding c(2) .
  \<comment> \<open>go spawns the job\<close>
  have e: "disp ?E = Idle \<and> search_thread ?E = None
      \<and> split_ws (strip ''go movetime 100'') = ''go'' # [''movetime'', ''100'']
      \<and> parse_go demo_rules [''movetime'', ''100''] ?E = Inr ?l" "threads ?E = []"
    by (simp_all add: run_eval)
  have "threads (step demo_rules (Recv ''go movetime 100'') ?E) = threads ?E @ [Created ?l]"
    using T[where s = ?E and line = "''go movetime 100''" and args = "[''movetime'', ''100'']"
        and lms = ?l,
        THEN conjunct2, THEN conjunct2, THEN conjunct2, THEN conjunct2, THEN conjunct2] e(1)
    by blast
  then have spawn: "threads (step demo_rules (Recv ''go movetime 100'') ?E) = [Created ?l]"
    unfolding e(2) by simp
  show ?thesis
    using one ou run rdone dflt d(1) beg g(2) five quiet spawn by (intro conjI)
qed

text \<open>
  Claim C4, as stated, fails: a Strategy that returns the empty string, or a string that
  is no move at all, gets that text emitted after \<open>bestmove\<close>, not the first legal move
  \<open>g1h3\<close> of the snapshot.
\<close>

theorem fallback_counterexample:
  "out (run demo_rules [Recv ''go'', Begin 0, Done 0 (Returned empty_string)]
          (demo_engine (External 4 4)))
     = [(Worker 0, ''bestmove '')]
   \<and> out (run demo_rules [Recv ''go'', Begin 0,
                            Done 0 (Returned (PObj ''zzzz'' ([CHR 0x27] @ ''zzzz'' @ [CHR 0x27])))]
          (demo_engine (External 4 4)))
     = [(Worker 0, ''bestmove zzzz'')]
   \<and> legal_moves demo_rules (initial demo_rules) = [''g1h3'', ''e2e4'']
   \<and> fallback demo_rules (initial demo_rules) = ''g1h3''"
  by (simp add: run_eval empty_string_def)

text \<open>
  Claim C4, amended. \<open>None\<close> is the only returned value the worker replaces. When the
  Strategy returns \<open>None\<close> or raises while the engine still holds the position the job's
  snapshot was taken from, the emitted bestmove names the first legal move of that
  snapshot, or \<open>(none)\<close> if it has no legal move (followed by \<open>ponder\<close> and the ponder
  move when one has been set on the engine). Any other returned value that is not a pair
  is emitted as its text.
\<close>

theorem fallback_on_none:
  assumes "thread_state s t = Some (Running (search_args snap lms))" and "board s = snap"
  shows "out (step r (Done t (Returned PNone)) s)
           = out s @ [(Worker t, ''bestmove '' @ fallback r snap
                @ (if truthy (ponder_move s) then '' ponder '' @ the (ponder_move s) else []))]
       \<and> out (step r (Done t Raised) s) = out s @ [(Worker t, ''bestmove '' @ fallback r snap)]
       \<and> fallback r snap = (case legal_moves r snap of [] \<Rightarrow> ''(none)'' | m # ms \<Rightarrow> uci r m)
       \<and> (v \<noteq> PNone \<and> (\<forall>a b c. v \<noteq> PTuple (a # b # c))
            \<longrightarrow> out (step r (Done t (Returned v)) s)
                  = out s @ [(Worker t, ''bestmove '' @ py_str v
                       @ (if truthy (ponder_move s) then '' ponder '' @ the (ponder_move s) else []))])"
proof -
  have nt: "\<not> truthy None" by (simp add: truthy_def)
  have other: "best_and_ponder r v s
                 = (py_str v, if truthy (ponder_move s) then ponder_move s else None)"
    if "v \<noteq> PNone" and "\<forall>a b c. v \<noteq> PTuple (a # b # c)"
    using that by (cases v) (auto simp: best_and_ponder_def Let_def split: list.splits)
  show ?thesis
    using assms nt other
    by (simp add: worker_return_effect worker_except_effect best_and_ponder_def bestmove_line_def
          fallback_def)
qed

theorem fallback_on_none_witness:
  "thread_state (run demo_rules [Recv ''position startpos moves e2e4'', Recv ''go'', Begin 0]
                   (demo_engine (External 4 4))) 0
     = Some (Running (search_args [''e2e4''] []))
   \<and> board (run demo_rules [Recv ''position startpos moves e2e4'', Recv ''go'', Begin 0]
                   (demo_engine (External 4 4))) = [''e2e4'']
   \<and> out (step demo_rules (Done 0 (Returned PNone))
             (run demo_rules [Recv ''position startpos moves e2e4'', Recv ''go'', Begin 0]
                   (demo_engine (External 4 4))))
      = [(Worker 0, ''bestmove g8h6'')]
   \<and> out (step demo_rules (Done 0 Raised)
             (run demo_rules [Recv ''position startpos moves e2e4'', Recv ''go'', Begin 0]
                   (demo_engine (External 4 4))))
      = [(Worker 0, ''bestmove g8h6'')]
   \<and> out (step demo_rules (Done 0 (Returned empty_string))
             (run demo_rules [Recv ''position startpos moves e2e4'', Recv ''go'', Begin 0]
                   (demo_engine (External 4 4))))
      = [(Worker 0, ''bestmove '')]"
proof -
  let ?s = "run demo_rules [Recv ''position startpos moves e2e4'', Recv ''go'', Begin 0]
                   (demo_engine (External 4 4))"
  have h1: "thread_state ?s 0 = Some (Running (search_args [''e2e4''] []))"
    by (simp add: run_eval)
  have h2: "board ?s = [''e2e4'']"
    by (simp add: run_eval)
  have v: "out ?s = []" "truthy (ponder_move ?s) = False" "fallback demo_rules [''e2e4''] = ''g8h6''"
    by (simp_all add: run_eval)
  note T = fallback_on_none[OF h1 h2, of demo_rules empty_string]
  have a: "out (step demo_rules (Done 0 (Returned PNone)) ?s) = [(Worker 0, ''bestmove g8h6'')]"
    unfolding T[THEN conjunct1] v by simp
  have b: "out (step demo_rules (Done 0 Raised) ?s) = [(Worker 0, ''bestmove g8h6'')]"
    unfolding T[THEN conjunct2, THEN conjunct1] v by simp
  have "empty_string \<noteq> PNone \<and> (\<forall>a b c. empty_string \<noteq> PTuple (a # b # c))"
    by (simp add: empty_string_def)
  with T have "out (step demo_rules (Done 0 (Returned empty_string)) ?s)
                  = out ?s @ [(Worker 0, ''bestmove '' @ py_str empty_string
                       @ (if truthy (ponder_move ?s) then '' ponder '' @ the (ponder_move ?s) else []))]"
    by blast
  then have c: "out (step demo_rules (Done 0 (Returned empty_string)) ?s) = [(Worker 0, ''bestmove '')]"
    unfolding v by (simp add: empty_string_def)
  show ?thesis using h1 h2 a b c by (intro conjI)
qed

text \<open>
  Claim C3, amended. Every search worker calls the Strategy with exactly four arguments:
  the snapshot of the position, the limits of its \<open>go\<close> command, the stop event and the
  info callback. The options are not passed. The worker runs the Strategy if it accepts
  four positional arguments, and is finished at once (by the \<open>except\<close> branch) if it
  does not, or if no Strategy was given.
\<close>

theorem strategy_called_with_four_args:
  assumes "thread_state s t = Some (Created lms)"
  shows "length (search_args (board s) lms) = 4
       \<and> search_args (board s) lms = [ArgBoard (board s), ArgLimits lms, ArgStopEvent, ArgInfoCallback]
       \<and> thread_state (step r (Begin t) s) t
            = Some (if search_fn s \<noteq> DefaultSearch \<and> accepts (search_fn s) 4
                    then Running (search_args (board s) lms) else Finished)"
proof -
  have t: "t < length (threads s)" using assms thread_state_Some by blast
  have len: "length (search_args (board s) lms) = 4" by (simp add: search_args_def)
  have "thread_state (step r (Begin t) s) t
            = Some (if search_fn s \<noteq> DefaultSearch \<and> accepts (search_fn s) 4
                    then Running (search_args (board s) lms) else Finished)"
    using assms t
    by (simp add: worker_begin_def Let_def len worker_except_effect)
       (simp add: thread_state_def)
  then show ?thesis using len by (simp add: search_args_def)
qed

theorem strategy_called_with_four_args_witness:
  "thread_state (run demo_rules [Recv ''go depth 3''] (demo_engine (External 4 4))) 0
      = Some (Created [(''depth'', LInt 3)])
   \<and> thread_state (step demo_rules (Begin 0)
                     (run demo_rules [Recv ''go depth 3''] (demo_engine (External 4 4)))) 0
      = Some (Running [ArgBoard [], ArgLimits [(''depth'', LInt 3)], ArgStopEvent, ArgInfoCallback])"
proof -
  let ?s = "run demo_rules [Recv ''go depth 3''] (demo_engine (External 4 4))"
  have h: "thread_state ?s 0 = Some (Created [(''depth'', LInt 3)])"
    by (simp add: run_eval)
  have v: "board ?s = []" "search_fn ?s = External 4 4" "accepts (External 4 4) 4"
    by (simp_all add: run_eval)
  have "thread_state (step demo_rules (Begin 0) ?s) 0
      = Some (Running [ArgBoard [], ArgLimits [(''depth'', LInt 3)], ArgStopEvent, ArgInfoCallback])"
    unfolding strategy_called_with_four_args[OF h, of demo_rules, THEN conjunct2, THEN conjunct2] v
    by (simp add: search_args_def accepts_def)
  then show ?thesis using h by (intro conjI)
qed

text \<open>
  Claim C3, as stated, fails: the call has four arguments and none of them is the
  options. A Strategy with five required parameters, as \<open>rand\<close> in \<open>dilute.py\<close> and in
  \<open>random_move.py\<close>, does not accept that call: on \<open>go\<close> its body never runs, a
  traceback is printed and the worker answers with the fallback move.
\<close>

theorem five_args_counterexample:
  "threads (run demo_rules [Recv ''go'', Begin 0] (demo_engine (External 4 4)))
     = [Running [ArgBoard [], ArgLimits [], ArgStopEvent, ArgInfoCallback]]
   \<and> search_fn registered_engine = External 5 5
   \<and> threads (run demo_rules [Recv ''go'', Begin 0] registered_engine) = [Finished]
   \<and> out (run demo_rules [Recv ''go'', Begin 0] registered_engine) = [(Worker 0, ''bestmove g1h3'')]
   \<and> tracebacks (run demo_rules [Recv ''go'', Begin 0] registered_engine) = 1"
  by (simp add: run_eval registered_engine_def)

text \<open>
  Claim C5. \<open>_cmd_ucinewgame\<close> resets the board before it stops and joins the search.
  After \<open>position startpos moves e2e4\<close>, \<open>go\<close> and \<open>ucinewgame\<close> the dispatcher is still
  joining worker 0, whose Strategy is still running on its snapshot with Black to move,
  and the board is already the initial position. When that Strategy now returns \<open>None\<close>,
  the worker reads the reset board and answers \<open>bestmove g1h3\<close>, a move of White; the
  first legal move of its snapshot is \<open>g8h6\<close>.
\<close>

theorem ucinewgame_resets_before_join:
  "board (run demo_rules [Recv ''position startpos moves e2e4'', Recv ''go'', Begin 0,
                          Recv ''ucinewgame''] (demo_engine (External 4 4))) = []
   \<and> disp (run demo_rules [Recv ''position startpos moves e2e4'', Recv ''go'', Begin 0,
                          Recv ''ucinewgame''] (demo_engine (External 4 4))) = Joining 0 KNewgame
   \<and> threads (run demo_rules [Recv ''position startpos moves e2e4'', Recv ''go'', Begin 0,
                          Recv ''ucinewgame''] (demo_engine (External 4 4)))
       = [Running (search_args [''e2e4''] [])]
   \<and> out (run demo_rules [Recv ''position startpos moves e2e4'', Recv ''go'', Begin 0,
                          Recv ''ucinewgame'', Done 0 (Returned PNone), Joined]
             (demo_engine (External 4 4)))
       = [(Worker 0, ''bestmove g1h3'')]
   \<and> fallback demo_rules [''e2e4''] = ''g8h6''"
  by (simp add: run_eval)

section \<open>At most one worker\<close>

lemma filter_at_most_one:
  assumes "\<And>i j. i < length xs \<Longrightarrow> j < length xs \<Longrightarrow> P (xs ! i) \<Longrightarrow> P (xs ! j) \<Longrightarrow> i = j"
  shows "length (filter P xs) \<le> 1"
  using assms
proof (induction xs)
  case Nil
  then show ?case by simp
next
  case (Cons x xs)
  have tl: "i = j" if "i < length xs" "j < length xs" "P (xs ! i)" "P (xs ! j)" for i j
    using Cons.prems[of "Suc i" "Suc j"] that by simp
  show ?case
  proof (cases "P x")
    case True
    have "\<not> P y" if "y \<in> set xs" for y
    proof
      assume "P y"
      from that obtain i where "i < length xs" "xs ! i = y" by (auto simp: in_set_conv_nth)
      with Cons.prems[of 0 "Suc i"] True \<open>P y\<close> show False by simp
    qed
    then have "filter P xs = []" by (simp add: filter_empty_conv)
    then show ?thesis using True by simp
  next
    case False
    then show ?thesis using Cons.IH tl by simp
  qed
qed

lemma tracked_alive:
  assumes "tracked s"
  shows "alive s \<le> 1"
  unfolding alive_def
proof (rule filter_at_most_one)
  fix i j
  assume "i < length (threads s)" "j < length (threads s)"
    "threads s ! i \<noteq> Finished" "threads s ! j \<noteq> Finished"
  then have "thread_state s i = Some (threads s ! i) \<and> threads s ! i \<noteq> Finished"
    "thread_state s j = Some (threads s ! j) \<and> threads s ! j \<noteq> Finished"
    by (simp_all add: thread_state_def)
  with assms have "search_thread s = Some i \<or> (\<exists>k. disp s = Joining i k)"
    "search_thread s = Some j \<or> (\<exists>k. disp s = Joining j k)"
    unfolding tracked_def by blast+
  moreover have "disp s = Joining t k \<Longrightarrow> search_thread s = None" for t k
    using assms unfolding tracked_def by blast
  ultimately show "i = j" by auto
qed

lemma tracked_init: "tracked (init r nm au fn)"
  by (simp add: tracked_def thread_state_def)

lemma tracked_same:
  assumes "tracked s" and "threads s' = threads s" and "search_thread s' = search_thread s"
    and "disp s' = disp s"
  shows "tracked s'"
  using assms by (simp add: tracked_def thread_state_def)

lemma tracked_idle_none:
  assumes "tracked s" and "disp s = Idle \<or> disp s = Stopped" and "search_thread s = None"
    and "thread_state s t = Some w"
  shows "w = Finished"
  using assms unfolding tracked_def by (metis dstate.distinct(1) dstate.distinct(5) option.distinct(1))

lemma tracked_resume:
  assumes "\<And>t w. thread_state s t = Some w \<Longrightarrow> w = Finished"
  shows "tracked (resume k s)"
proof (cases k)
  case (KStart lms)
  have "thread_state (resume (KStart lms) s) t = Some w \<Longrightarrow> w \<noteq> Finished \<Longrightarrow> t = length (threads s)" for t w
    using assms[of t w] by (auto simp: thread_state_def nth_append split: if_splits)
  then show ?thesis using KStart by (auto simp: tracked_def)
next
  case KStop
  have "thread_state (resume KStop s) = thread_state s" by (simp add: thread_state_def fun_eq_iff)
  then show ?thesis unfolding KStop tracked_def using assms by auto
next
  case KNewgame
  have "thread_state (resume KNewgame s) = thread_state s" by (simp add: thread_state_def fun_eq_iff)
  then show ?thesis unfolding KNewgame tracked_def using assms by auto
next
  case KQuit
  have "thread_state (resume KQuit s) = thread_state s" by (simp add: thread_state_def fun_eq_iff)
  then show ?thesis unfolding KQuit tracked_def using assms by auto
next
  case KEof
  have "thread_state (resume KEof s) = thread_state s" by (simp add: thread_state_def fun_eq_iff)
  then show ?thesis unfolding KEof tracked_def using assms by auto
qed

lemma tracked_stop_search:
  assumes "tracked s" and "disp s = Idle"
  shows "tracked (stop_search k s)"
proof (cases "search_thread s")
  case None
  let ?s1 = "s\<lparr> stop_event := True, search_thread := None \<rparr>"
  have "w = Finished" if "thread_state ?s1 t = Some w" for t w
    using tracked_idle_none[OF assms(1) _ None, of t w] assms(2) that by simp
  then have "tracked (resume k ?s1)" by (rule tracked_resume)
  then show ?thesis using None by (simp add: stop_search_def Let_def)
next
  case (Some th)
  have "search_thread s = Some t" if "thread_state s t = Some w" "w \<noteq> Finished" for t w
    using assms that unfolding tracked_def by (metis dstate.distinct(1))
  then show ?thesis using Some
    by (auto simp: stop_search_def Let_def tracked_def)
qed


lemma tracked_thread_update:
  assumes "tracked s" and "thread_state s t = Some w" and "w \<noteq> Finished"
    and "threads s' = (threads s)[t := w']" and "search_thread s' = search_thread s"
    and "disp s' = disp s"
  shows "tracked s'"
proof -
  have ts: "thread_state s' u = (if u = t \<and> t < length (threads s) then Some w' else thread_state s u)" for u
    using assms(4) by (rule thread_state_update)
  have "search_thread s = Some t \<or> (\<exists>k. disp s = Joining t k)"
    using assms(1,2,3) unfolding tracked_def by blast
  then show ?thesis using assms(1,5,6) unfolding tracked_def ts by (auto split: if_splits)
qed

lemma handle_line_tracked:
  assumes "tracked s" and "disp s = Idle" and "handle_line r l s = Inr s'"
  shows "tracked s'"
proof -
  have same: "tracked x" if "threads x = threads s" "search_thread x = search_thread s" "disp x = disp s" for x
    using tracked_same[OF assms(1) that] .
  have stop: "tracked (stop_search k x)"
    if "threads x = threads s" "search_thread x = search_thread s" "disp x = disp s" for x k
    using tracked_stop_search[OF same[OF that], of k] that(3) assms(2) by simp
  have uci: "tracked (cmd_uci s)" by (rule same) simp_all
  have rdy: "tracked (cmd_isready s)" by (rule same) (simp_all add: cmd_isready_def)
  have setoption: "tracked (cmd_setoption a s)" for a by (rule same) simp_all
  have newgame: "tracked (cmd_ucinewgame r s)"
    unfolding cmd_ucinewgame_def by (rule stop) simp_all
  have position: "tracked x" if "cmd_position r a s = Inr x" for a x
    by (rule same) (simp_all add: cmd_position_fields[OF that])
  have go: "tracked x" if "cmd_go r a s = Inr x" for a x
  proof -
    from that obtain lms where "x = stop_search (KStart lms) (s\<lparr> ponder := (dict_get lms ''ponder'' \<noteq> None) \<rparr>)"
      by (auto simp: cmd_go_def start_search_def split: sum.splits)
    then show ?thesis using stop[of "s\<lparr> ponder := (dict_get lms ''ponder'' \<noteq> None) \<rparr>" "KStart lms"]
      by simp
  qed
  have stp: "tracked (cmd_stop s)" unfolding cmd_stop_def by (rule stop) simp_all
  have ponderhit: "tracked (cmd_ponderhit s)" by (rule same) (simp_all add: cmd_ponderhit_def)
  have quit: "tracked (cmd_quit s)" unfolding cmd_quit_def by (rule stop) simp_all
  have unknown: "tracked (logger m s)" for m by (rule same) simp_all
  show ?thesis
  proof (cases "split_ws l")
    case Nil
    then show ?thesis using assms by (simp add: handle_line_def)
  next
    case (Cons cmd args)
    then show ?thesis
      using assms(3) uci rdy setoption newgame position go stp ponderhit quit unknown
      by (auto simp: handle_line_def split: if_splits)
  qed
qed

lemma recv_tracked:
  assumes "tracked s" and "disp s = Idle"
  shows "tracked (recv r line s)"
proof (cases "line = []")
  case True
  then show ?thesis using tracked_stop_search[OF assms, of KEof] by (simp add: recv_def)
next
  case ne: False
  show ?thesis
  proof (cases "strip line = []")
    case True
    then show ?thesis using ne assms by (simp add: recv_def)
  next
    case False
    let ?s1 = "logger (''<- '' @ strip line) s"
    have t1: "tracked ?s1" by (rule tracked_same[OF assms(1)]) simp_all
    show ?thesis
    proof (cases "handle_line r (strip line) ?s1")
      case (Inl e)
      then have "recv r line s = ?s1\<lparr> tracebacks := tracebacks ?s1 + 1 \<rparr>"
        using ne False by (simp add: recv_def Let_def)
      moreover have "tracked (?s1\<lparr> tracebacks := tracebacks ?s1 + 1 \<rparr>)"
        by (rule tracked_same[OF assms(1)]) simp_all
      ultimately show ?thesis by simp
    next
      case (Inr s2)
      then have "recv r line s = s2" using ne False by (simp add: recv_def Let_def)
      moreover have "tracked s2" using handle_line_tracked[OF t1 _ Inr] assms(2) by simp
      ultimately show ?thesis by simp
    qed
  qed
qed

lemma step_tracked:
  assumes "tracked s" and "e \<noteq> JoinTimeout"
  shows "tracked (step r e s)"
proof (cases e)
  case (Recv line)
  then show ?thesis using assms recv_tracked[of s r line] by simp
next
  case Joined
  show ?thesis
  proof (cases "disp s")
    case Idle
    then show ?thesis using Joined assms by simp
  next
    case (Joining th k)
    show ?thesis
    proof (cases "thread_state s th = Some Finished")
      case True
      have "w = Finished" if "thread_state s t = Some w" for t w
      proof (rule ccontr)
        assume "w \<noteq> Finished"
        with that assms(1) Joining have "t = th" unfolding tracked_def by auto
        with that True \<open>w \<noteq> Finished\<close> show False by simp
      qed
      then have "tracked (resume k s)" by (rule tracked_resume)
      then show ?thesis using Joined Joining True by simp
    next
      case False
      then show ?thesis using Joined Joining assms by simp
    qed
  next
    case Stopped
    then show ?thesis using Joined assms by simp
  qed
next
  case JoinTimeout
  then show ?thesis using assms by simp
next
  case (Begin t)
  show ?thesis
  proof (cases "thread_state s t")
    case None
    then show ?thesis using Begin assms by simp
  next
    case (Some w)
    show ?thesis
    proof (cases w)
      case (Created lms)
      have "tracked (worker_except r t s)"
        by (rule tracked_thread_update[OF assms(1) Some, where w' = Finished])
           (simp_all add: Created worker_except_def)
      moreover have "tracked (s\<lparr> threads := (threads s)[t := Running a] \<rparr>)" for a
        by (rule tracked_thread_update[OF assms(1) Some, where w' = "Running a"]) (simp_all add: Created)
      ultimately show ?thesis using Begin Some Created by (simp add: worker_begin_def Let_def)
    next
      case (Running a)
      then show ?thesis using Begin Some assms by simp
    next
      case Finished
      then show ?thesis using Begin Some assms by simp
    qed
  qed
next
  case (Info t now i)
  have "tracked (info_callback (Worker t) now i s)"
    using assms(1) by (simp add: tracked_def info_callback_effect)
  then show ?thesis using Info assms by (simp split: option.splits wstate.splits)
next
  case (SetPonder t p)
  have "tracked (s\<lparr> ponder_move := p \<rparr>)" by (rule tracked_same[OF assms(1)]) simp_all
  then show ?thesis using SetPonder assms by (simp split: option.splits wstate.splits)
next
  case (Done t res)
  show ?thesis
  proof (cases "thread_state s t")
    case None
    then show ?thesis using Done assms by simp
  next
    case (Some w)
    show ?thesis
    proof (cases w)
      case (Created lms)
      then show ?thesis using Done Some assms by simp
    next
      case (Running a)
      have "tracked (worker_except r t s)"
        by (rule tracked_thread_update[OF assms(1) Some, where w' = Finished])
           (simp_all add: Running worker_except_def)
      moreover have "tracked (worker_return r t v s)" for v
        by (rule tracked_thread_update[OF assms(1) Some, where w' = Finished])
           (simp_all add: Running worker_return_def)
      ultimately show ?thesis using Done Some Running by (simp split: result.splits)
    next
      case Finished
      then show ?thesis using Done Some assms by simp
    qed
  qed
qed

lemma run_tracked: "tracked s \<Longrightarrow> JoinTimeout \<notin> set evs \<Longrightarrow> tracked (run r evs s)"
proof (induction evs rule: rev_induct)
  case Nil
  then show ?case by (simp add: run_def)
next
  case (snoc e evs)
  then have "tracked (run r evs s)" and "e \<noteq> JoinTimeout" by auto
  then show ?case unfolding run_snoc by (rule step_tracked)
qed


text \<open>
  Claim C2, amended. As long as no join times out, at most one worker is alive at any
  instant, so two Strategies never run concurrently. A \<open>go\<close> that finds a tracked worker
  first sets the stop event and joins that worker, and spawns nothing yet; the new worker
  is spawned, and the stop event cleared, only when the join returns. When the join
  returns because its timeout has passed, the first worker is abandoned: it is still
  alive when the second is spawned.
\<close>

theorem one_worker_unless_abandoned:
  "(JoinTimeout \<notin> set evs \<longrightarrow> alive (run r evs (init r nm au fn)) \<le> 1)
   \<and> (disp s = Idle \<and> search_thread s = Some th \<and> split_ws (strip line) = ''go'' # args
        \<and> parse_go r args s = Inr lms
      \<longrightarrow> stop_event (step r (Recv line) s)
        \<and> disp (step r (Recv line) s) = Joining th (KStart lms)
        \<and> threads (step r (Recv line) s) = threads s
        \<and> search_thread (step r (Recv line) s) = None)
   \<and> (disp s = Joining th (KStart lms) \<and> thread_state s th = Some Finished
      \<longrightarrow> threads (step r Joined s) = threads s @ [Created lms]
        \<and> search_thread (step r Joined s) = Some (length (threads s))
        \<and> \<not> stop_event (step r Joined s))
   \<and> (disp s = Joining th (KStart lms) \<and> thread_state s th = Some w \<and> w \<noteq> Finished
      \<longrightarrow> threads (step r JoinTimeout s) = threads s @ [Created lms]
        \<and> thread_state (step r JoinTimeout s) th = Some w
        \<and> \<not> stop_event (step r JoinTimeout s))"
proof (intro conjI impI)
  assume "JoinTimeout \<notin> set evs"
  with tracked_init have "tracked (run r evs (init r nm au fn))" by (rule run_tracked)
  then show "alive (run r evs (init r nm au fn)) \<le> 1" by (rule tracked_alive)
next
  assume a: "disp s = Idle \<and> search_thread s = Some th \<and> split_ws (strip line) = ''go'' # args
        \<and> parse_go r args s = Inr lms"
  then have tok: "split_ws (strip line) = ''go'' # args" by simp
  let ?s1 = "logger (''<- '' @ strip line) s"
  have "handle_line r (strip line) ?s1
          = Inr (stop_search (KStart lms) (?s1\<lparr> ponder := (dict_get lms ''ponder'' \<noteq> None) \<rparr>))"
    using a by (simp add: handle_line_def cmd_go_def parse_go_logger start_search_def)
  then have st: "step r (Recv line) s
          = stop_search (KStart lms) (?s1\<lparr> ponder := (dict_get lms ''ponder'' \<noteq> None) \<rparr>)"
    using a recv_tokens[OF tok, of r s] by simp
  show "stop_event (step r (Recv line) s)"
    "disp (step r (Recv line) s) = Joining th (KStart lms)"
    "threads (step r (Recv line) s) = threads s"
    "search_thread (step r (Recv line) s) = None"
    unfolding st using a by (simp_all add: stop_search_def Let_def)
next
  assume a: "disp s = Joining th (KStart lms) \<and> thread_state s th = Some Finished"
  then show "threads (step r Joined s) = threads s @ [Created lms]"
    "search_thread (step r Joined s) = Some (length (threads s))"
    "\<not> stop_event (step r Joined s)"
    by simp_all
next
  assume a: "disp s = Joining th (KStart lms) \<and> thread_state s th = Some w \<and> w \<noteq> Finished"
  then have st: "step r JoinTimeout s = resume (KStart lms) s"
    by (cases w) simp_all
  have "th < length (threads s)" using a thread_state_Some by blast
  then show "threads (step r JoinTimeout s) = threads s @ [Created lms]"
    "thread_state (step r JoinTimeout s) th = Some w"
    "\<not> stop_event (step r JoinTimeout s)"
    unfolding st using a by (simp_all add: thread_state_def nth_append)
qed

text \<open>
  Claim C2, as stated, fails: when the first Strategy does not return within the join
  timeout, the second \<open>go\<close> spawns its worker beside it, and two Strategies run at the
  same time (with the stop event cleared again).
\<close>

theorem two_workers_counterexample:
  "threads (run demo_rules [Recv ''go infinite'', Begin 0, Recv ''go infinite'', JoinTimeout, Begin 1]
              (demo_engine (External 4 4)))
     = [Running (search_args [] [(''infinite'', LTrue)]),
        Running (search_args [] [(''infinite'', LTrue)])]
   \<and> alive (run demo_rules [Recv ''go infinite'', Begin 0, Recv ''go infinite'', JoinTimeout, Begin 1]
              (demo_engine (External 4 4))) = 2
   \<and> stop_event (run demo_rules [Recv ''go infinite'', Begin 0, Recv ''go infinite'', JoinTimeout,
                                  Begin 1] (demo_engine (External 4 4))) = False"
  by (simp add: run_eval alive_def)

theorem one_worker_unless_abandoned_witness:
  "JoinTimeout \<notin> set [Recv ''go infinite'', Begin 0, Recv ''go depth 3'',
                         Done 0 (Returned (PMove ''e2e4'')), Joined, Begin 1]
   \<and> alive (run demo_rules [Recv ''go infinite'', Begin 0, Recv ''go depth 3'',
                             Done 0 (Returned (PMove ''e2e4'')), Joined, Begin 1]
              (demo_engine (External 4 4))) \<le> 1
   \<and> threads (run demo_rules [Recv ''go infinite'', Begin 0, Recv ''go depth 3'',
                             Done 0 (Returned (PMove ''e2e4'')), Joined, Begin 1]
              (demo_engine (External 4 4)))
       = [Finished, Running (search_args [] [(''depth'', LInt 3)])]
   \<and> disp (step demo_rules (Recv ''go depth 3'')
              (run demo_rules [Recv ''go infinite'', Begin 0] (demo_engine (External 4 4))))
       = Joining 0 (KStart [(''depth'', LInt 3)])
   \<and> stop_event (step demo_rules (Recv ''go depth 3'')
              (run demo_rules [Recv ''go infinite'', Begin 0] (demo_engine (External 4 4))))
   \<and> threads (step demo_rules Joined
              (run demo_rules [Recv ''go infinite'', Begin 0, Recv ''go depth 3'',
                               Done 0 (Returned (PMove ''e2e4''))] (demo_engine (External 4 4))))
       = [Finished, Created [(''depth'', LInt 3)]]
   \<and> threads (step demo_rules JoinTimeout
              (run demo_rules [Recv ''go infinite'', Begin 0, Recv ''go depth 3'']
                 (demo_engine (External 4 4))))
       = [Running (search_args [] [(''infinite'', LTrue)]), Created [(''depth'', LInt 3)]]"
proof -
  let ?E = "demo_engine (External 4 4) :: string list engine"
  let ?evs = "[Recv ''go infinite'', Begin 0, Recv ''go depth 3'',
               Done 0 (Returned (PMove ''e2e4'')), Joined, Begin 1]"
  let ?s1 = "run demo_rules [Recv ''go infinite'', Begin 0] ?E"
  let ?s2 = "run demo_rules [Recv ''go infinite'', Begin 0, Recv ''go depth 3'',
                               Done 0 (Returned (PMove ''e2e4''))] ?E"
  let ?s3 = "run demo_rules [Recv ''go infinite'', Begin 0, Recv ''go depth 3''] ?E"
  let ?l = "[(''depth'', LInt 3)]"
  let ?a = "search_args ([] :: string list) [(''infinite'', LTrue)]"
  note T = one_worker_unless_abandoned[where r = demo_rules and nm = "''MinimalPyUCI''"
      and au = "''ciaranmcguinness''" and fn = "External 4 4", folded demo_engine_def]
  have nt: "JoinTimeout \<notin> set ?evs" by simp
  have al: "alive (run demo_rules ?evs ?E) \<le> 1"
    using T[where evs = ?evs, THEN conjunct1] nt by blast
  have th: "threads (run demo_rules ?evs ?E) = [Finished, Running (search_args [] ?l)]"
    by (simp add: run_eval)
  have h1: "disp ?s1 = Idle \<and> search_thread ?s1 = Some 0
      \<and> split_ws (strip ''go depth 3'') = ''go'' # [''depth'', ''3'']
      \<and> parse_go demo_rules [''depth'', ''3''] ?s1 = Inr ?l"
    by (simp add: run_eval)
  have go: "stop_event (step demo_rules (Recv ''go depth 3'') ?s1)
        \<and> disp (step demo_rules (Recv ''go depth 3'') ?s1) = Joining 0 (KStart ?l)
        \<and> threads (step demo_rules (Recv ''go depth 3'') ?s1) = threads ?s1
        \<and> search_thread (step demo_rules (Recv ''go depth 3'') ?s1) = None"
    using T[where s = ?s1 and th = 0 and line = "''go depth 3''" and args = "[''depth'', ''3'']"
        and lms = ?l, THEN conjunct2, THEN conjunct1] h1 by blast
  have h2: "disp ?s2 = Joining 0 (KStart ?l) \<and> thread_state ?s2 0 = Some Finished"
    and t2: "threads ?s2 = [Finished]"
    by (simp_all add: run_eval)
  have jo: "threads (step demo_rules Joined ?s2) = threads ?s2 @ [Created ?l]"
    using T[where s = ?s2 and th = 0 and lms = ?l, THEN conjunct2, THEN conjunct2, THEN conjunct1] h2
    by blast
  have h3: "disp ?s3 = Joining 0 (KStart ?l) \<and> thread_state ?s3 0 = Some (Running ?a)
      \<and> Running ?a \<noteq> Finished"
    and t3: "threads ?s3 = [Running ?a]"
    by (simp_all add: run_eval)
  have to: "threads (step demo_rules JoinTimeout ?s3) = threads ?s3 @ [Created ?l]"
    using T[where s = ?s3 and th = 0 and lms = ?l and w = "Running ?a",
        THEN conjunct2, THEN conjunct2, THEN conjunct2] h3
    by blast
  show ?thesis
    using nt al th go jo[unfolded t2] to[unfolded t3] by (intro conjI) simp_all
qed

end
